theory Spec2Isabelle
  imports Main "HOL-Library.Multiset"
begin

section \<open>JavaScript values\<close>

text \<open>
  The client and the backend exchange JSON. A value is one of the JSON kinds, plus
  \<open>JUndefined\<close> for what a read of a missing property yields. Numbers are the integers
  (orders, timestamps in milliseconds, HTTP status codes); an object is the list of its
  own properties in insertion order, with no key twice.
\<close>

datatype json =
    JUndefined
  | JNull
  | JBool bool
  | JNum int
  | JStr string
  | JArr "json list"
  | JObj "(string \<times> json) list"

type_synonym obj = "(string \<times> json) list"

text \<open>What a rejected promise carries.\<close>

datatype error =
    Error string
  | TypeError
  | SyntaxError
  | NetworkError string

text \<open>The truth value of a value in a condition (\<open>if (v)\<close>, \<open>!v\<close>, \<open>a || b\<close>).\<close>

fun truthy :: "json \<Rightarrow> bool" where
  "truthy JUndefined = False"
| "truthy JNull = False"
| "truthy (JBool b) = b"
| "truthy (JNum n) = (n \<noteq> 0)"
| "truthy (JStr s) = (s \<noteq> [])"
| "truthy (JArr xs) = True"
| "truthy (JObj kvs) = True"

text \<open>\<open>o.name\<close> on an object: the property's value, \<open>undefined\<close> when the object has none.\<close>

definition prop_of :: "obj \<Rightarrow> string \<Rightarrow> json" where
  "prop_of ob name = (case map_of ob name of None \<Rightarrow> JUndefined | Some v \<Rightarrow> v)"

text \<open>
  \<open>v.name\<close> on any value, for the names the code reads (\<open>success\<close>, \<open>error\<close>,
  \<open>data\<close>, \<open>downloadUrl\<close>; none of them is a built-in property of a string, a number
  or an array): a read on \<open>null\<close> or \<open>undefined\<close> throws a TypeError.
\<close>

fun get_prop :: "json \<Rightarrow> string \<Rightarrow> error + json" where
  "get_prop JUndefined name = Inl TypeError"
| "get_prop JNull name = Inl TypeError"
| "get_prop (JObj kvs) name = Inr (prop_of kvs name)"
| "get_prop v name = Inr JUndefined"

text \<open>\<open>{...o, name: v}\<close>: an own property keeps its place, a new one goes last.\<close>

fun set_prop :: "obj \<Rightarrow> string \<Rightarrow> json \<Rightarrow> obj" where
  "set_prop [] name v = [(name, v)]"
| "set_prop ((k, w) # rest) name v =
     (if k = name then (k, v) # rest else (k, w) # set_prop rest name v)"

text \<open>Decimal numerals, as string conversion prints an integer.\<close>

definition digit_char :: "nat \<Rightarrow> char" where
  "digit_char d = ''0123456789'' ! d"

fun show_nat :: "nat \<Rightarrow> string" where
  "show_nat n =
     (if n < 10 then [digit_char n] else show_nat (n div 10) @ [digit_char (n mod 10)])"

declare show_nat.simps [simp del]

definition show_int :: "int \<Rightarrow> string" where
  "show_int i = (if i < 0 then CHR ''-'' # show_nat (nat (- i)) else show_nat (nat i))"

fun join :: "string \<Rightarrow> string list \<Rightarrow> string" where
  "join sep [] = []"
| "join sep [x] = x"
| "join sep (x # y # ys) = x @ sep @ join sep (y # ys)"

text \<open>
  \<open>String(v)\<close>, which a template literal \<open>`${v}`\<close> and \<open>new Error(v)\<close> apply to
  their argument.
\<close>

fun js_to_string :: "json \<Rightarrow> string" where
  "js_to_string JUndefined = ''undefined''"
| "js_to_string JNull = ''null''"
| "js_to_string (JBool b) = (if b then ''true'' else ''false'')"
| "js_to_string (JNum n) = show_int n"
| "js_to_string (JStr s) = s"
| "js_to_string (JArr xs) =
     join '','' (map (\<lambda>x. if x = JNull \<or> x = JUndefined then [] else js_to_string x) xs)"
| "js_to_string (JObj kvs) = ''[object Object]''"

text \<open>\<open>s.startsWith(p)\<close> and \<open>s.includes(p)\<close>.\<close>

fun startsWith :: "string \<Rightarrow> string \<Rightarrow> bool" where
  "startsWith s [] = True"
| "startsWith [] (p # ps) = False"
| "startsWith (c # cs) (p # ps) = (c = p \<and> startsWith cs ps)"

fun js_includes :: "string \<Rightarrow> string \<Rightarrow> bool" where
  "js_includes [] pat = (pat = [])"
| "js_includes (c # cs) pat = (startsWith (c # cs) pat \<or> js_includes cs pat)"

subsection \<open>JSON.stringify\<close>

text \<open>
  A string is quoted, with the quote, the backslash and the control characters escaped.
\<close>

definition hex_char :: "nat \<Rightarrow> char" where
  "hex_char d = ''0123456789abcdef'' ! d"

definition json_escape :: "char \<Rightarrow> string" where
  "json_escape c =
     (if c = CHR 0x22 then [CHR 0x5C, CHR 0x22]
      else if c = CHR 0x5C then [CHR 0x5C, CHR 0x5C]
      else if c = CHR 0x08 then [CHR 0x5C, CHR ''b'']
      else if c = CHR 0x0C then [CHR 0x5C, CHR ''f'']
      else if c = CHR 0x0A then [CHR 0x5C, CHR ''n'']
      else if c = CHR 0x0D then [CHR 0x5C, CHR ''r'']
      else if c = CHR 0x09 then [CHR 0x5C, CHR ''t'']
      else if (of_char c :: nat) < 32
        then [CHR 0x5C, CHR ''u'', CHR ''0'', CHR ''0'',
              hex_char ((of_char c :: nat) div 16), hex_char ((of_char c :: nat) mod 16)]
      else [c])"

definition json_quote :: "string \<Rightarrow> string" where
  "json_quote s = CHR 0x22 # concat (map json_escape s) @ [CHR 0x22]"

text \<open>
  A value inside an array or an object: \<open>undefined\<close> prints as \<open>null\<close> in an array,
  and a property whose value is \<open>undefined\<close> is left out of an object.
\<close>

fun stringify_value :: "json \<Rightarrow> string" where
  "stringify_value JUndefined = ''null''"
| "stringify_value JNull = ''null''"
| "stringify_value (JBool b) = (if b then ''true'' else ''false'')"
| "stringify_value (JNum n) = show_int n"
| "stringify_value (JStr s) = json_quote s"
| "stringify_value (JArr xs) = ''['' @ join '','' (map stringify_value xs) @ '']''"
| "stringify_value (JObj kvs) =
     ''{'' @ join '',''
        (map (\<lambda>kv. json_quote (fst kv) @ '':'' @ stringify_value (snd kv))
           (filter (\<lambda>kv. snd kv \<noteq> JUndefined) kvs)) @ ''}''"

definition JSON_stringify :: "obj \<Rightarrow> string" where
  "JSON_stringify ob = stringify_value (JObj ob)"

section \<open>The client data-access layer (utils/api.ts)\<close>

text \<open>
  The project id and the key come from \<open>utils/supabase/info\<close>, which the functions
  below take as a parameter.
\<close>

record info =
  projectId :: string
  publicAnonKey :: string

definition API_BASE_URL :: "info \<Rightarrow> string" where
  "API_BASE_URL i =
     ''https://'' @ projectId i @ ''.supabase.co/functions/v1/make-server-78971119''"

definition createAuthHeaders :: "info \<Rightarrow> (string \<times> string) list" where
  "createAuthHeaders i =
     [(''Content-Type'', ''application/json''),
      (''Authorization'', ''Bearer '' @ publicAnonKey i)]"

definition createFormHeaders :: "info \<Rightarrow> (string \<times> string) list" where
  "createFormHeaders i = [(''Authorization'', ''Bearer '' @ publicAnonKey i)]"

subsection \<open>Requests and responses\<close>

text \<open>A file is its name, its media type and its content.\<close>

datatype js_file = File string string string

datatype form_value = FormText string | FormFile js_file

text \<open>
  A request body is a string (the calls pass \<open>JSON.stringify(data)\<close>) or a FormData
  object, the list of its entries.
\<close>

datatype body = StringBody string | FormDataBody "(string \<times> form_value) list"

text \<open>
  The options of a call (\<open>RequestInit\<close>). Every call site writes its properties in the
  order \<open>method\<close>, \<open>headers\<close>, \<open>body\<close> and leaves out the ones it does not set.
\<close>

record request_init =
  http_method :: "string option"
  headers :: "(string \<times> string) list option"
  body :: "body option"

text \<open>
  \<open>JSON.stringify(options)\<close>. A FormData object has no enumerable property of its own,
  so it prints as the empty object.
\<close>

definition stringify_headers :: "(string \<times> string) list \<Rightarrow> string" where
  "stringify_headers hs =
     ''{'' @ join '','' (map (\<lambda>kv. json_quote (fst kv) @ '':'' @ json_quote (snd kv)) hs) @ ''}''"

definition stringify_body :: "body \<Rightarrow> string" where
  "stringify_body b = (case b of StringBody s \<Rightarrow> json_quote s | FormDataBody fd \<Rightarrow> ''{}'')"

definition stringify_options :: "request_init \<Rightarrow> string" where
  "stringify_options options =
     ''{'' @ join '',''
       ((case http_method options of None \<Rightarrow> []
         | Some m \<Rightarrow> [json_quote ''method'' @ '':'' @ json_quote m]) @
        (case headers options of None \<Rightarrow> []
         | Some hs \<Rightarrow> [json_quote ''headers'' @ '':'' @ stringify_headers hs]) @
        (case body options of None \<Rightarrow> []
         | Some b \<Rightarrow> [json_quote ''body'' @ '':'' @ stringify_body b])) @ ''}''"

text \<open>
  A response, as the completion handler reads it: the status, what \<open>response.text()\<close>
  yields, and what \<open>response.json()\<close> yields (\<open>None\<close> when the body is not JSON and
  the read rejects).
\<close>

record response =
  status :: nat
  body_text :: string
  body_json :: "json option"

definition ok :: "response \<Rightarrow> bool" where
  "ok r = (200 \<le> status r \<and> status r \<le> 299)"

datatype fetch_result = Rejects string | Responds response

subsection \<open>The cache\<close>

record cache_entry =
  data :: json
  timestamp :: int

definition CACHE_DURATION :: int where
  "CACHE_DURATION = 5 * 60 * 1000"

text \<open>
  A promise returned by \<open>makeRequest\<close> is waiting for \<open>fetch\<close>, or its handler has
  started and waits for the body (\<open>await response.text()\<close>, \<open>await response.json()\<close>),
  or it is settled. The first two keep what the handler closes over.
\<close>

datatype promise =
    Fetching string request_init "string option"
  | Reading response string request_init "string option"
  | Settled "error + json"

text \<open>
  The module's state: the two maps, the promises created so far (a promise is named by
  its index) and the log of the calls of \<open>fetch\<close>.
\<close>

record client =
  cache :: "string \<rightharpoonup> cache_entry"
  pendingRequests :: "string \<rightharpoonup> nat"
  promises :: "promise list"
  fetches :: "(string \<times> request_init) list"

definition getCacheKey :: "string \<Rightarrow> obj option \<Rightarrow> string" where
  "getCacheKey url params =
     (case params of Some ps \<Rightarrow> url @ ''_'' @ JSON_stringify ps | None \<Rightarrow> url)"

text \<open>\<open>now\<close> is what \<open>Date.now()\<close> returns at the call. A miss is \<open>null\<close>.\<close>

definition getCachedData :: "client \<Rightarrow> int \<Rightarrow> string \<Rightarrow> json" where
  "getCachedData st now key =
     (case cache st key of
        Some cached \<Rightarrow> if now - timestamp cached < CACHE_DURATION then data cached else JNull
      | None \<Rightarrow> JNull)"

definition setCachedData :: "client \<Rightarrow> int \<Rightarrow> string \<Rightarrow> json \<Rightarrow> client" where
  "setCachedData st now key d =
     st\<lparr>cache := (cache st)(key \<mapsto> \<lparr>data = d, timestamp = now\<rparr>)\<rparr>"

definition clearCachePattern :: "client \<Rightarrow> string \<Rightarrow> client" where
  "clearCachePattern st pattern =
     st\<lparr>cache := (\<lambda>key. if js_includes key pattern then None else cache st key)\<rparr>"

subsection \<open>makeRequest\<close>

text \<open>\<open>cacheKey && (!options.method || options.method === 'GET')\<close>\<close>

definition cachedGet :: "string option \<Rightarrow> request_init \<Rightarrow> bool" where
  "cachedGet cacheKey options =
     ((case cacheKey of None \<Rightarrow> False | Some k \<Rightarrow> k \<noteq> []) \<and>
      (case http_method options of None \<Rightarrow> True | Some m \<Rightarrow> m = [] \<or> m = ''GET''))"

definition requestKey :: "string \<Rightarrow> request_init \<Rightarrow> string" where
  "requestKey url options = url @ ''_'' @ stringify_options options"

text \<open>
  What the caller of \<open>makeRequest\<close> gets: the cached value, the promise of a request
  already in flight, or the promise of the request it has just sent.
\<close>

datatype outcome = CacheHit json | Joined nat | Issued nat

text \<open>
  The call itself, up to its \<open>return\<close>: there is no \<open>await\<close> on the way, so it runs in
  one piece.
\<close>

definition makeRequest ::
  "client \<Rightarrow> int \<Rightarrow> string \<Rightarrow> request_init \<Rightarrow> string option \<Rightarrow> outcome \<times> client" where
  "makeRequest st now url options cacheKey =
     (if cachedGet cacheKey options \<and> truthy (getCachedData st now (the cacheKey))
      then (CacheHit (getCachedData st now (the cacheKey)), st)
      else
        case pendingRequests st (requestKey url options) of
          Some p \<Rightarrow> (Joined p, st)
        | None \<Rightarrow>
            let p = length (promises st)
            in (Issued p,
                st\<lparr>promises := promises st @ [Fetching url options cacheKey],
                   pendingRequests := (pendingRequests st)(requestKey url options \<mapsto> p),
                   fetches := fetches st @ [(url, options)]\<rparr>))"

text \<open>
  The handler's reading of a response: the error it throws or the value it returns.
\<close>

definition readResponse :: "response \<Rightarrow> error + json" where
  "readResponse r =
     (if \<not> ok r
      then Inl (Error (''HTTP '' @ show_nat (status r) @ '': '' @ body_text r))
      else
        case body_json r of
          None \<Rightarrow> Inl SyntaxError
        | Some result \<Rightarrow>
            (case get_prop result ''success'' of
               Inl e \<Rightarrow> Inl e
             | Inr success \<Rightarrow>
                 if \<not> truthy success
                 then (case get_prop result ''error'' of
                         Inl e \<Rightarrow> Inl e
                       | Inr msg \<Rightarrow>
                           Inl (Error (if truthy msg then js_to_string msg
                                       else ''API request failed'')))
                 else get_prop result ''data''))"

text \<open>
  \<open>fetch\<close> settles for promise \<open>p\<close>. On a response the \<open>then\<close> handler starts: it
  deletes the in-flight entry and waits for the body. On a rejection the \<open>catch\<close>
  handler deletes the entry and rethrows.
\<close>

definition fetchSettles :: "client \<Rightarrow> nat \<Rightarrow> fetch_result \<Rightarrow> client" where
  "fetchSettles st p r =
     (if p < length (promises st) then
        (case promises st ! p of
           Fetching url options cacheKey \<Rightarrow>
             (case r of
                Responds resp \<Rightarrow>
                  st\<lparr>pendingRequests := (pendingRequests st)(requestKey url options := None),
                     promises := (promises st)[p := Reading resp url options cacheKey]\<rparr>
              | Rejects msg \<Rightarrow>
                  st\<lparr>pendingRequests := (pendingRequests st)(requestKey url options := None),
                     promises := (promises st)[p := Settled (Inl (NetworkError msg))]\<rparr>)
         | Reading resp url options cacheKey \<Rightarrow> st
         | Settled res \<Rightarrow> st)
      else st)"

text \<open>
  The body of promise \<open>p\<close>'s response has arrived and the handler runs to its end, at
  time \<open>now\<close>: on an error the \<open>catch\<close> handler deletes the entry of the request key
  again, whatever promise it holds by then, and rethrows; on success a cached read
  stores the value, and the promise resolves with it.
\<close>

definition bodyArrives :: "client \<Rightarrow> int \<Rightarrow> nat \<Rightarrow> client" where
  "bodyArrives st now p =
     (if p < length (promises st) then
        (case promises st ! p of
           Reading resp url options cacheKey \<Rightarrow>
             (case readResponse resp of
                Inl e \<Rightarrow>
                  st\<lparr>pendingRequests := (pendingRequests st)(requestKey url options := None),
                     promises := (promises st)[p := Settled (Inl e)]\<rparr>
              | Inr d \<Rightarrow>
                  (if cachedGet cacheKey options
                   then setCachedData st now (the cacheKey) d else st)
                  \<lparr>promises := (promises st)[p := Settled (Inr d)]\<rparr>)
         | Fetching url options cacheKey \<Rightarrow> st
         | Settled res \<Rightarrow> st)
      else st)"

text \<open>What a caller has received so far: nothing while its promise is not settled.\<close>

definition received :: "client \<Rightarrow> outcome \<Rightarrow> (error + json) option" where
  "received st out =
     (case out of
        CacheHit v \<Rightarrow> Some (Inr v)
      | Joined p \<Rightarrow> (case promises st ! p of Settled res \<Rightarrow> Some res | _ \<Rightarrow> None)
      | Issued p \<Rightarrow> (case promises st ! p of Settled res \<Rightarrow> Some res | _ \<Rightarrow> None))"

subsection \<open>companyApi and reportApi\<close>

definition companyApi_getAll :: "info \<Rightarrow> client \<Rightarrow> int \<Rightarrow> outcome \<times> client" where
  "companyApi_getAll i st now =
     makeRequest st now (API_BASE_URL i @ ''/companies'')
       \<lparr>http_method = None, headers = Some (createAuthHeaders i), body = None\<rparr>
       (Some (getCacheKey ''companies_getAll'' None))"

definition companyApi_getById :: "info \<Rightarrow> client \<Rightarrow> int \<Rightarrow> string \<Rightarrow> outcome \<times> client" where
  "companyApi_getById i st now ident =
     makeRequest st now (API_BASE_URL i @ ''/companies/'' @ ident)
       \<lparr>http_method = None, headers = Some (createAuthHeaders i), body = None\<rparr>
       (Some (getCacheKey ''companies_getById'' (Some [(''id'', JStr ident)])))"

definition companyApi_create :: "info \<Rightarrow> client \<Rightarrow> int \<Rightarrow> obj \<Rightarrow> outcome \<times> client" where
  "companyApi_create i st now d =
     makeRequest (clearCachePattern st ''companies'') now (API_BASE_URL i @ ''/companies'')
       \<lparr>http_method = Some ''POST'', headers = Some (createAuthHeaders i),
        body = Some (StringBody (JSON_stringify d))\<rparr>
       None"

definition companyApi_update ::
  "info \<Rightarrow> client \<Rightarrow> int \<Rightarrow> string \<Rightarrow> obj \<Rightarrow> outcome \<times> client" where
  "companyApi_update i st now ident d =
     makeRequest (clearCachePattern st ''companies'') now
       (API_BASE_URL i @ ''/companies/'' @ ident)
       \<lparr>http_method = Some ''PUT'', headers = Some (createAuthHeaders i),
        body = Some (StringBody (JSON_stringify d))\<rparr>
       None"

definition companyApi_delete :: "info \<Rightarrow> client \<Rightarrow> int \<Rightarrow> string \<Rightarrow> outcome \<times> client" where
  "companyApi_delete i st now ident =
     makeRequest (clearCachePattern (clearCachePattern st ''companies'') (''reports_'' @ ident))
       now (API_BASE_URL i @ ''/companies/'' @ ident)
       \<lparr>http_method = Some ''DELETE'', headers = Some (createAuthHeaders i), body = None\<rparr>
       None"

definition orderUpdates_json :: "(string \<times> int) list \<Rightarrow> obj" where
  "orderUpdates_json us =
     [(''orderUpdates'',
       JArr (map (\<lambda>u. JObj [(''id'', JStr (fst u)), (''order'', JNum (snd u))]) us))]"

definition companyApi_updateOrder ::
  "info \<Rightarrow> client \<Rightarrow> int \<Rightarrow> (string \<times> int) list \<Rightarrow> outcome \<times> client" where
  "companyApi_updateOrder i st now orderUpdates =
     makeRequest (clearCachePattern st ''companies'') now
       (API_BASE_URL i @ ''/companies/reorder'')
       \<lparr>http_method = Some ''POST'', headers = Some (createAuthHeaders i),
        body = Some (StringBody (JSON_stringify (orderUpdates_json orderUpdates)))\<rparr>
       None"

definition companyApi_uploadIcon ::
  "info \<Rightarrow> client \<Rightarrow> int \<Rightarrow> string \<Rightarrow> js_file \<Rightarrow> outcome \<times> client" where
  "companyApi_uploadIcon i st now ident f =
     makeRequest (clearCachePattern st ''companies'') now
       (API_BASE_URL i @ ''/companies/'' @ ident @ ''/icon'')
       \<lparr>http_method = Some ''POST'', headers = Some (createFormHeaders i),
        body = Some (FormDataBody [(''icon'', FormFile f)])\<rparr>
       None"

definition companyApi_removeIcon :: "info \<Rightarrow> client \<Rightarrow> int \<Rightarrow> string \<Rightarrow> outcome \<times> client" where
  "companyApi_removeIcon i st now ident =
     makeRequest (clearCachePattern st ''companies'') now
       (API_BASE_URL i @ ''/companies/'' @ ident @ ''/icon'')
       \<lparr>http_method = Some ''DELETE'', headers = Some (createAuthHeaders i), body = None\<rparr>
       None"

record upload_data =
  title :: string
  analyst :: string
  category :: string
  the_file :: js_file

definition reportApi_upload ::
  "info \<Rightarrow> client \<Rightarrow> int \<Rightarrow> string \<Rightarrow> upload_data \<Rightarrow> outcome \<times> client" where
  "reportApi_upload i st now companyId d =
     makeRequest (clearCachePattern st (''reports_'' @ companyId)) now
       (API_BASE_URL i @ ''/companies/'' @ companyId @ ''/reports'')
       \<lparr>http_method = Some ''POST'', headers = Some (createFormHeaders i),
        body = Some (FormDataBody
          [(''title'', FormText (title d)), (''analyst'', FormText (analyst d)),
           (''category'', FormText (category d)), (''file'', FormFile (the_file d))])\<rparr>
       None"

text \<open>
  \<open>getDownloadUrl\<close> sends the request with no cache key, and once it has the result of
  \<open>makeRequest\<close> it reads the \<open>downloadUrl\<close> property of it.
\<close>

definition reportApi_getDownloadUrl ::
  "info \<Rightarrow> client \<Rightarrow> int \<Rightarrow> string \<Rightarrow> string \<Rightarrow> outcome \<times> client" where
  "reportApi_getDownloadUrl i st now companyId reportId =
     makeRequest st now
       (API_BASE_URL i @ ''/reports/'' @ companyId @ ''/'' @ reportId @ ''/download'')
       \<lparr>http_method = None, headers = Some (createAuthHeaders i), body = None\<rparr>
       None"

definition getDownloadUrl_result :: "error + json \<Rightarrow> error + json" where
  "getDownloadUrl_result res =
     (case res of Inl e \<Rightarrow> Inl e | Inr result \<Rightarrow> get_prop result ''downloadUrl'')"

section \<open>Display order\<close>

text \<open>
  \<open>Array.prototype.sort\<close> with a comparison function is stable: an element goes before
  the first one it does not compare greater than, and elements that compare equal keep
  their order.
\<close>

fun insert_by :: "('a \<Rightarrow> 'a \<Rightarrow> int) \<Rightarrow> 'a \<Rightarrow> 'a list \<Rightarrow> 'a list" where
  "insert_by cmp x [] = [x]"
| "insert_by cmp x (y # ys) =
     (if cmp x y \<le> 0 then x # y # ys else y # insert_by cmp x ys)"

definition sort_js :: "('a \<Rightarrow> 'a \<Rightarrow> int) \<Rightarrow> 'a list \<Rightarrow> 'a list" where
  "sort_js cmp xs = foldr (insert_by cmp) xs []"

text \<open>
  \<open>a.order ?? d\<close>. The field is declared \<open>order?: number\<close>: a value that is not a
  number is read as a missing one.
\<close>

definition order_or :: "int \<Rightarrow> obj \<Rightarrow> int" where
  "order_or d a = (case prop_of a ''order'' of JNum n \<Rightarrow> n | _ \<Rightarrow> d)"

definition has_order :: "obj \<Rightarrow> bool" where
  "has_order a = (case prop_of a ''order'' of JNum n \<Rightarrow> True | _ \<Rightarrow> False)"

text \<open>\<open>a.createdAt || ''\<close>, the argument of \<open>new Date\<close>.\<close>

definition createdAt_of :: "obj \<Rightarrow> string" where
  "createdAt_of a = (case prop_of a ''createdAt'' of JStr s \<Rightarrow> s | _ \<Rightarrow> [])"

text \<open>
  The comparison function of every list of companies and of reports. \<open>getTime\<close> stands
  for \<open>new Date(s).getTime()\<close>, with \<open>None\<close> for the NaN of an invalid date; a
  comparison that yields NaN counts as 0 in \<open>sort\<close>.
\<close>

definition compareOrder :: "(string \<Rightarrow> int option) \<Rightarrow> obj \<Rightarrow> obj \<Rightarrow> int" where
  "compareOrder getTime a b =
     (let orderA = order_or 999999 a; orderB = order_or 999999 b
      in if orderA \<noteq> orderB then orderA - orderB
         else (case (getTime (createdAt_of b), getTime (createdAt_of a)) of
                 (Some tb, Some ta) \<Rightarrow> tb - ta
               | _ \<Rightarrow> 0))"

definition sortedCompanies :: "(string \<Rightarrow> int option) \<Rightarrow> obj list \<Rightarrow> obj list" where
  "sortedCompanies getTime items = sort_js (compareOrder getTime) items"

text \<open>The comparison function of the comments of a report: oldest first.\<close>

definition created_time :: "(string \<Rightarrow> int option) \<Rightarrow> obj \<Rightarrow> int option" where
  "created_time getTime a =
     (case prop_of a ''createdAt'' of JStr s \<Rightarrow> getTime s | _ \<Rightarrow> None)"

definition compareCreated :: "(string \<Rightarrow> int option) \<Rightarrow> obj \<Rightarrow> obj \<Rightarrow> int" where
  "compareCreated getTime a b =
     (case (created_time getTime a, created_time getTime b) of
        (Some ta, Some tb) \<Rightarrow> ta - tb
      | _ \<Rightarrow> 0)"

section \<open>The sort manager (components/SortManager.tsx)\<close>

text \<open>
  \<open>xs.splice(start, deleteCount, ...items)\<close>: the removed elements and the array
  afterwards. A negative start counts from the end, and both numbers are clamped.
\<close>

definition splice_start :: "nat \<Rightarrow> int \<Rightarrow> nat" where
  "splice_start len start =
     (if start < 0 then nat (max (int len + start) 0) else min (nat start) len)"

definition splice :: "'a list \<Rightarrow> int \<Rightarrow> int \<Rightarrow> 'a list \<Rightarrow> 'a list \<times> 'a list" where
  "splice xs start deleteCount items =
     (let len = length xs;
          actualStart = splice_start len start;
          actualDeleteCount = nat (min (max deleteCount 0) (int len - int actualStart))
      in (take actualDeleteCount (drop actualStart xs),
          take actualStart xs @ items @ drop (actualStart + actualDeleteCount) xs))"

text \<open>
  The component's state. An element is \<open>None\<close> where the array holds \<open>undefined\<close>,
  which is what \<open>moveItem\<close> inserts when nothing was removed.
\<close>

record 'a sort_manager =
  sortedItems :: "'a option list"
  hasChanges :: bool

definition moveItem :: "'a sort_manager \<Rightarrow> int \<Rightarrow> int \<Rightarrow> 'a sort_manager" where
  "moveItem st fromIndex toIndex =
     (if toIndex < 0 \<or> toIndex \<ge> int (length (sortedItems st)) then st
      else
        let newItems = sortedItems st;
            (removed, newItems1) = splice newItems fromIndex 1 [];
            movedItem = (case removed of [] \<Rightarrow> None | x # rest \<Rightarrow> x);
            (removed2, newItems2) = splice newItems1 toIndex 0 [movedItem]
        in st\<lparr>sortedItems := newItems2, hasChanges := True\<rparr>)"

definition moveUp :: "'a sort_manager \<Rightarrow> int \<Rightarrow> 'a sort_manager" where
  "moveUp st index = moveItem st index (index - 1)"

definition moveDown :: "'a sort_manager \<Rightarrow> int \<Rightarrow> 'a sort_manager" where
  "moveDown st index = moveItem st index (index + 1)"

section \<open>Reordering companies (App.tsx)\<close>

text \<open>
  \<open>reorderedCompanies.map((company, index) => ({id: company.id, order: index}))\<close>, for
  companies whose \<open>id\<close> is a string, as the type declares.
\<close>

definition id_of :: "obj \<Rightarrow> string" where
  "id_of a = js_to_string (prop_of a ''id'')"




section \<open>The backend (supabase/functions/server)\<close>

subsection \<open>The key-value store and the blob store\<close>

text \<open>
  Modelled from the spec: \<open>kv_store.tsx\<close> is not part of the sources. The spec names it
  a key-value abstraction, and the handlers use four operations of it: \<open>get\<close>,
  \<open>set\<close>, \<open>del\<close> and \<open>getByPrefix\<close>, which returns the values of the keys that
  start with the prefix. The store is the list of its entries, one per key; every value
  the handlers store is an object. The operations are taken to succeed (when one throws,
  a handler answers 500 from its \<open>catch\<close>).
\<close>

type_synonym store = "(string \<times> obj) list"

definition kv_get :: "store \<Rightarrow> string \<Rightarrow> obj option" where
  "kv_get st key = map_of st key"

fun kv_set :: "store \<Rightarrow> string \<Rightarrow> obj \<Rightarrow> store" where
  "kv_set [] key v = [(key, v)]"
| "kv_set ((k, w) # rest) key v =
     (if k = key then (k, v) # rest else (k, w) # kv_set rest key v)"

definition kv_del :: "store \<Rightarrow> string \<Rightarrow> store" where
  "kv_del st key = filter (\<lambda>e. fst e \<noteq> key) st"

definition kv_getByPrefix :: "store \<Rightarrow> string \<Rightarrow> obj list" where
  "kv_getByPrefix st pre = map snd (filter (\<lambda>e. startsWith (fst e) pre) st)"

text \<open>
  The blob store holds the pairs of a bucket and a path. A removal can fail: \<open>fails\<close>
  says for which bucket and path it does, and then the blob stays. The handlers log such
  a failure and go on.
\<close>

record server =
  kv :: store
  storage :: "(string \<times> string) set"

definition storage_remove ::
  "(string \<Rightarrow> string \<Rightarrow> bool) \<Rightarrow> server \<Rightarrow> string \<Rightarrow> string \<Rightarrow> server" where
  "storage_remove fails sv bucket path =
     (if fails bucket path then sv else sv\<lparr>storage := storage sv - {(bucket, path)}\<rparr>)"

subsection \<open>Replies\<close>

text \<open>What a value is on the other side of \<open>JSON.stringify\<close> and \<open>JSON.parse\<close>.\<close>

fun wire :: "json \<Rightarrow> json" where
  "wire (JArr xs) = JArr (map (\<lambda>x. if x = JUndefined then JNull else wire x) xs)"
| "wire (JObj kvs) =
     JObj (map (\<lambda>kv. (fst kv, wire (snd kv))) (filter (\<lambda>kv. snd kv \<noteq> JUndefined) kvs))"
| "wire v = v"

text \<open>\<open>c.json(ob, code)\<close>\<close>

definition c_json :: "obj \<Rightarrow> nat \<Rightarrow> response" where
  "c_json ob code =
     \<lparr>status = code, body_text = JSON_stringify ob, body_json = Some (wire (JObj ob))\<rparr>"

definition failure :: "string \<Rightarrow> nat \<Rightarrow> response" where
  "failure msg code = c_json [(''success'', JBool False), (''error'', JStr msg)] code"

subsection \<open>company-handlers.tsx\<close>

text \<open>GET /companies\<close>

definition get_companies :: "(string \<Rightarrow> int option) \<Rightarrow> server \<Rightarrow> response" where
  "get_companies getTime sv =
     (let companies = sort_js (compareOrder getTime) (kv_getByPrefix (kv sv) ''company:'')
      in c_json [(''success'', JBool True), (''data'', JArr (map JObj companies))] 200)"

text \<open>GET /companies/:id\<close>

definition get_company :: "server \<Rightarrow> string \<Rightarrow> response" where
  "get_company sv ident =
     (case kv_get (kv sv) (''company:'' @ ident) of
        None \<Rightarrow> failure ''Company not found'' 404
      | Some company \<Rightarrow> c_json [(''success'', JBool True), (''data'', JObj company)] 200)"





text \<open>\<open>url.split('/').pop()\<close>\<close>

definition last_segment :: "string \<Rightarrow> string" where
  "last_segment url = rev (takeWhile (\<lambda>c. c \<noteq> CHR ''/'') (rev url))"

text \<open>
  DELETE /companies/:id. The loop over the reports of the company, listed before it
  starts; its body removes the blob of the report, the comments listed under it, and the
  report.
\<close>

definition deleteComments :: "store \<Rightarrow> string \<Rightarrow> obj list \<Rightarrow> store" where
  "deleteComments st pre comments = foldl (\<lambda>s comment. kv_del s (pre @ id_of comment)) st comments"

definition deleteReport ::
  "(string \<Rightarrow> string \<Rightarrow> bool) \<Rightarrow> string \<Rightarrow> obj \<Rightarrow> server \<Rightarrow> server" where
  "deleteReport fails ident report sv =
     (let sv1 = (if truthy (prop_of report ''filePath'')
                 then storage_remove fails sv ''make-78971119-reports''
                        (js_to_string (prop_of report ''filePath''))
                 else sv);
          pre = ''comment:'' @ ident @ '':'' @ id_of report @ '':'';
          comments = kv_getByPrefix (kv sv1) pre;
          sv2 = sv1\<lparr>kv := deleteComments (kv sv1) pre comments\<rparr>
      in sv2\<lparr>kv := kv_del (kv sv2) (''report:'' @ ident @ '':'' @ id_of report)\<rparr>)"

fun deleteReports ::
  "(string \<Rightarrow> string \<Rightarrow> bool) \<Rightarrow> string \<Rightarrow> obj list \<Rightarrow> server \<Rightarrow> server" where
  "deleteReports fails ident [] sv = sv"
| "deleteReports fails ident (report # rest) sv =
     deleteReports fails ident rest (deleteReport fails ident report sv)"

text \<open>The icon of the company goes first, when it has one.\<close>

definition deleteIcon :: "(string \<Rightarrow> string \<Rightarrow> bool) \<Rightarrow> server \<Rightarrow> obj \<Rightarrow> server" where
  "deleteIcon fails sv company =
     (case prop_of company ''iconUrl'' of
        JStr url \<Rightarrow>
          if url \<noteq> [] \<and> last_segment url \<noteq> []
          then storage_remove fails sv ''make-78971119-company-icons''
                 (''company-icons/'' @ last_segment url)
          else sv
      | _ \<Rightarrow> sv)"

definition delete_company ::
  "(string \<Rightarrow> string \<Rightarrow> bool) \<Rightarrow> server \<Rightarrow> string \<Rightarrow> response \<times> server" where
  "delete_company fails sv ident =
     (case kv_get (kv sv) (''company:'' @ ident) of
        None \<Rightarrow> (failure ''Company not found'' 404, sv)
      | Some company \<Rightarrow>
          let sv1 = deleteIcon fails sv company;
              reports = kv_getByPrefix (kv sv1) (''report:'' @ ident @ '':'');
              sv2 = deleteReports fails ident reports sv1;
              sv3 = sv2\<lparr>kv := kv_del (kv sv2) (''company:'' @ ident)\<rparr>
          in (c_json [(''success'', JBool True)] 200, sv3))"

subsection \<open>report-handlers.tsx\<close>

text \<open>GET /companies/:companyId/reports\<close>

definition get_reports :: "(string \<Rightarrow> int option) \<Rightarrow> server \<Rightarrow> string \<Rightarrow> response" where
  "get_reports getTime sv companyId =
     (let reports = kv_getByPrefix (kv sv) (''report:'' @ companyId @ '':'');
          withComments =
            map (\<lambda>report. set_prop report ''comments''
                   (JArr (map JObj (sort_js (compareCreated getTime)
                      (kv_getByPrefix (kv sv)
                         (''comment:'' @ companyId @ '':'' @ id_of report @ '':''))))))
              reports;
          sorted = sort_js (compareOrder getTime) withComments
      in c_json [(''success'', JBool True), (''data'', JArr (map JObj sorted))] 200)"

text \<open>
  GET /reports/:companyId/:reportId/download. \<open>createSignedUrl\<close> is the blob store's:
  from the bucket, the path and the seconds until expiry it gives the signed URL, or
  \<open>None\<close> when it reports an error.
\<close>

definition get_report_download ::
  "(string \<Rightarrow> json \<Rightarrow> nat \<Rightarrow> string option) \<Rightarrow> server \<Rightarrow> string \<Rightarrow> string \<Rightarrow> response" where
  "get_report_download createSignedUrl sv companyId reportId =
     (case kv_get (kv sv) (''report:'' @ companyId @ '':'' @ reportId) of
        None \<Rightarrow> failure ''Report not found'' 404
      | Some report \<Rightarrow>
          (case createSignedUrl ''make-78971119-reports'' (prop_of report ''filePath'') 3600 of
             None \<Rightarrow> failure ''Failed to generate download link'' 500
           | Some signedUrl \<Rightarrow>
               c_json [(''success'', JBool True), (''downloadUrl'', JStr signedUrl)] 200))"

section \<open>The order the specification asks for\<close>

text \<open>
  Ascending \<open>order\<close>, a missing one counted as 999999, and among equal orders the
  newer \<open>createdAt\<close> first.
\<close>

definition order_then_newest :: "(string \<Rightarrow> int option) \<Rightarrow> obj \<Rightarrow> obj \<Rightarrow> bool" where
  "order_then_newest getTime a b =
     (order_or 999999 a < order_or 999999 b \<or>
      (order_or 999999 a = order_or 999999 b \<and>
       (case (getTime (createdAt_of a), getTime (createdAt_of b)) of
          (Some ta, Some tb) \<Rightarrow> tb \<le> ta
        | _ \<Rightarrow> False)))"

section \<open>Runs of the client\<close>

text \<open>
  The response of promise \<open>p\<close> arrives and its handler runs to the end at time
  \<open>now\<close>, with no other step of the client in between; then an account for the
  examples, a client that has done nothing yet, and a request with no options.
\<close>

definition respond :: "client \<Rightarrow> int \<Rightarrow> nat \<Rightarrow> response \<Rightarrow> client" where
  "respond st now p resp = bodyArrives (fetchSettles st p (Responds resp)) now p"

definition info0 :: info where
  "info0 = \<lparr>projectId = ''demo'', publicAnonKey = ''anon''\<rparr>"

definition client0 :: client where
  "client0 = \<lparr>cache = Map.empty, pendingRequests = Map.empty, promises = [], fetches = []\<rparr>"

definition plain_get :: request_init where
  "plain_get = \<lparr>http_method = None, headers = None, body = None\<rparr>"

text \<open>
  Two replies for the examples, and the six mutations of \<open>companyApi\<close> as one call.
\<close>

definition ok_reply :: response where
  "ok_reply = c_json [(''success'', JBool True), (''data'', JNum 7)] 200"

datatype company_mutation =
    Create obj
  | Update string obj
  | Delete string
  | UpdateOrder "(string \<times> int) list"
  | UploadIcon string js_file
  | RemoveIcon string

fun companyApi_mutate :: "info \<Rightarrow> client \<Rightarrow> int \<Rightarrow> company_mutation \<Rightarrow> outcome \<times> client" where
  "companyApi_mutate i st now (Create d) = companyApi_create i st now d"
| "companyApi_mutate i st now (Update ident d) = companyApi_update i st now ident d"
| "companyApi_mutate i st now (Delete ident) = companyApi_delete i st now ident"
| "companyApi_mutate i st now (UpdateOrder us) = companyApi_updateOrder i st now us"
| "companyApi_mutate i st now (UploadIcon ident f) = companyApi_uploadIcon i st now ident f"
| "companyApi_mutate i st now (RemoveIcon ident) = companyApi_removeIcon i st now ident"

text \<open>
  Two uploads for the same company, a reply that lists two companies, the client after a
  first \<open>getAll\<close> has stored that list, and the reply to a mutation.
\<close>

definition upload_A :: upload_data where
  "upload_A = \<lparr>title = ''Q1 review'', analyst = ''Li'', category = ''follow-up'',
                the_file = File ''q1.pdf'' ''application/pdf'' ''aaa''\<rparr>"

definition upload_B :: upload_data where
  "upload_B = \<lparr>title = ''Initiation'', analyst = ''Wang'', category = ''initiation'',
                the_file = File ''init.pdf'' ''application/pdf'' ''bbb''\<rparr>"

definition two_companies :: json where
  "two_companies = JArr [JObj [(''id'', JStr ''1'')], JObj [(''id'', JStr ''2'')]]"

definition list_of_two :: response where
  "list_of_two = c_json [(''success'', JBool True), (''data'', two_companies)] 200"

definition warm_client :: client where
  "warm_client = respond (snd (companyApi_getAll info0 client0 0)) 1 0 list_of_two"

definition done_reply :: response where
  "done_reply = c_json [(''success'', JBool True)] 200"

section \<open>Backend examples\<close>

text \<open>
  A store with one company that has one report with a stored file, and a blob store that
  signs every path.
\<close>

definition one_report :: server where
  "one_report =
     \<lparr>kv = [(''company:c1'', [(''id'', JStr ''c1''), (''name'', JStr ''Acme'')]),
            (''report:c1:r1'',
             [(''id'', JStr ''r1''), (''companyId'', JStr ''c1''),
              (''filePath'', JStr ''c1/r1.pdf'')])],
      storage = {(''make-78971119-reports'', ''c1/r1.pdf'')}\<rparr>"

definition sign_all :: "string \<Rightarrow> json \<Rightarrow> nat \<Rightarrow> string option" where
  "sign_all bucket path seconds =
     Some (''https://blobs/'' @ bucket @ ''/'' @ js_to_string path @ ''?expires='' @ show_nat seconds)"

text \<open>
  The handlers store a report under \<open>report:<company>:<id>\<close> and a comment under
  \<open>comment:<company>:<report>:<id>\<close>, with the same id in the record. A store is keyed
  under a prefix when every key that starts with it is the prefix followed by the id of
  its record. Then a store with two reports and a comment on each, and two blob stores:
  one whose removals succeed and one whose removals fail.
\<close>

definition keyed_under :: "store \<Rightarrow> string \<Rightarrow> bool" where
  "keyed_under st pre \<longleftrightarrow> (\<forall>e \<in> set st. startsWith (fst e) pre \<longrightarrow> fst e = pre @ id_of (snd e))"

definition two_reports :: server where
  "two_reports =
     \<lparr>kv = [(''company:c1'', [(''id'', JStr ''c1''), (''name'', JStr ''Acme'')]),
            (''report:c1:r1'', [(''id'', JStr ''r1''), (''filePath'', JStr ''c1/r1.pdf'')]),
            (''comment:c1:r1:m1'', [(''id'', JStr ''m1''), (''content'', JStr ''first'')]),
            (''report:c1:r2'', [(''id'', JStr ''r2''), (''filePath'', JStr ''c1/r2.pdf'')]),
            (''comment:c1:r2:m2'', [(''id'', JStr ''m2''), (''content'', JStr ''second'')]),
            (''company:c2'', [(''id'', JStr ''c2''), (''name'', JStr ''Other'')])],
      storage = {(''make-78971119-reports'', ''c1/r1.pdf''),
                 (''make-78971119-reports'', ''c1/r2.pdf'')}\<rparr>"

definition never_fails :: "string \<Rightarrow> string \<Rightarrow> bool" where
  "never_fails bucket path = False"

definition always_fails :: "string \<Rightarrow> string \<Rightarrow> bool" where
  "always_fails bucket path = True"

section \<open>Schedules of the client\<close>

text \<open>
  What can happen to the client, one step at a time: a call of \<open>makeRequest\<close> at a
  time, a call of \<open>clearCachePattern\<close>, \<open>fetch\<close> settling for a promise, and the body
  of a promise's response arriving at a time. A schedule is a list of such events, run
  from a state.
\<close>

datatype event =
    Call string request_init "string option" int
  | Clear string
  | Arrive nat fetch_result
  | Finish nat int

fun step :: "client \<Rightarrow> event \<Rightarrow> client" where
  "step st (Call url options cacheKey now) = snd (makeRequest st now url options cacheKey)"
| "step st (Clear pattern) = clearCachePattern st pattern"
| "step st (Arrive p r) = fetchSettles st p r"
| "step st (Finish p now) = bodyArrives st now p"

definition run :: "client \<Rightarrow> event list \<Rightarrow> client" where
  "run st es = foldl step st es"

text \<open>The request key of the request a promise stands for, while it is not settled.\<close>

fun key_of :: "promise \<Rightarrow> string option" where
  "key_of (Fetching url options cacheKey) = Some (requestKey url options)"
| "key_of (Reading resp url options cacheKey) = Some (requestKey url options)"
| "key_of (Settled res) = None"

text \<open>
  The event starts or ends the completion handler of a request with key \<open>k\<close>: both
  delete the entry of \<open>k\<close> in \<open>pendingRequests\<close>. A schedule is undisturbed for \<open>k\<close>
  when none of its events does.
\<close>

fun completes :: "client \<Rightarrow> string \<Rightarrow> event \<Rightarrow> bool" where
  "completes st k (Arrive p r) = (p < length (promises st) \<and> key_of (promises st ! p) = Some k)"
| "completes st k (Finish p now) = (p < length (promises st) \<and> key_of (promises st ! p) = Some k)"
| "completes st k (Call url options cacheKey now) = False"
| "completes st k (Clear pattern) = False"

fun undisturbed :: "string \<Rightarrow> client \<Rightarrow> event list \<Rightarrow> bool" where
  "undisturbed k st [] = True"
| "undisturbed k st (e # es) = (\<not> completes st k e \<and> undisturbed k (step st e) es)"

text \<open>The requests sent so far whose request key is \<open>k\<close>.\<close>

definition key_fetches :: "string \<Rightarrow> client \<Rightarrow> (string \<times> request_init) list" where
  "key_fetches k st = filter (\<lambda>f. requestKey (fst f) (snd f) = k) (fetches st)"

text \<open>
  The cache key under which the completion handler of a promise stores its value, and
  the events that remove or replace the cache entry of a key: a \<open>clearCachePattern\<close>
  whose pattern the key contains, and the end of the handler of a cached read with that
  cache key. A schedule keeps the entry when none of its events does.
\<close>

fun stores_under :: "promise \<Rightarrow> string option" where
  "stores_under (Reading resp url options cacheKey) =
     (if cachedGet cacheKey options then cacheKey else None)"
| "stores_under (Fetching url options cacheKey) = None"
| "stores_under (Settled res) = None"

fun overwrites :: "client \<Rightarrow> string \<Rightarrow> event \<Rightarrow> bool" where
  "overwrites st key (Clear pattern) = js_includes key pattern"
| "overwrites st key (Finish p now) =
     (p < length (promises st) \<and> stores_under (promises st ! p) = Some key)"
| "overwrites st key (Call url options cacheKey now) = False"
| "overwrites st key (Arrive p r) = False"

fun kept :: "string \<Rightarrow> client \<Rightarrow> event list \<Rightarrow> bool" where
  "kept key st [] = True"
| "kept key st (e # es) = (\<not> overwrites st key e \<and> kept key (step st e) es)"

text \<open>A call of \<open>clearCachePattern\<close> whose pattern the cache key contains.\<close>

fun clears :: "string \<Rightarrow> event \<Rightarrow> bool" where
  "clears key (Clear pattern) = js_includes key pattern"
| "clears key (Call url options cacheKey now) = False"
| "clears key (Arrive p r) = False"
| "clears key (Finish p now) = False"

text \<open>
  Other traffic for the examples: a cached read of another URL is sent as promise 1 and
  completes, and the reports of company 7 are cleared from the cache.
\<close>

definition other_traffic :: "event list" where
  "other_traffic =
     [Call ''v'' plain_get (Some ''k'') 2, Arrive 1 (Responds ok_reply), Finish 1 3,
      Clear ''reports_7'']"


section \<open>The reorder round trip\<close>










section \<open>Moving an item\<close>

lemma moveItem_in_range:
  assumes "i < length xs" "j < length xs" "sortedItems st = xs"
  shows "sortedItems (moveItem st (int i) (int j)) =
         take j (take i xs @ drop (Suc i) xs) @ [xs ! i] @ drop j (take i xs @ drop (Suc i) xs)"
proof -
  have d: "drop i xs = xs ! i # drop (Suc i) xs"
    using assms(1) by (simp add: Cons_nth_drop_Suc)
  have l: "j \<le> length (take i xs @ drop (Suc i) xs)" using assms by simp
  show ?thesis
    using assms l d
    by (simp add: moveItem_def splice_def splice_start_def Let_def min_def max_def)
qed

lemma move_nth:
  assumes "i < length xs" "j < length xs" "k < length xs"
  shows "(take j (take i xs @ drop (Suc i) xs) @ [xs ! i] @ drop j (take i xs @ drop (Suc i) xs)) ! k =
         (if k = j then xs ! i
          else if i < j \<and> i \<le> k \<and> k < j then xs ! (k + 1)
          else if j < i \<and> j < k \<and> k \<le> i then xs ! (k - 1)
          else xs ! k)"
  using assms
  by (auto simp: nth_append min_def nth_Cons')

lemma move_mset:
  assumes "i < length xs"
  shows "mset (take j (take i xs @ drop (Suc i) xs) @ [xs ! i] @ drop j (take i xs @ drop (Suc i) xs)) = mset xs"
proof -
  let ?r = "take i xs @ drop (Suc i) xs"
  have "mset (take j ?r @ [xs ! i] @ drop j ?r) = mset (take j ?r @ drop j ?r) + {#xs ! i#}"
    by (simp del: append_take_drop_id)
  also have "\<dots> = mset ?r + {#xs ! i#}" by (simp only: append_take_drop_id)
  also have "\<dots> = mset (take i xs @ xs ! i # drop (Suc i) xs)" by simp
  also have "\<dots> = mset xs" using assms by (simp only: id_take_nth_drop [symmetric])
  finally show ?thesis .
qed

text \<open>
  Claim C5. For a valid index \<open>i\<close>: when \<open>j\<close> is in range, \<open>moveItem\<close> takes the item
  at \<open>i\<close> out and puts it back at \<open>j\<close>, the items between the two places move by one
  place and the others stay, and the items are the same multiset as before; when \<open>j\<close>
  is out of range the state is unchanged.
\<close>

theorem moveItem_moves:
  assumes "0 \<le> i" and "i < int (length (sortedItems st))"
  shows "(0 \<le> j \<and> j < int (length (sortedItems st)) \<longrightarrow>
            sortedItems (moveItem st i j) =
              take (nat j) (take (nat i) (sortedItems st) @ drop (Suc (nat i)) (sortedItems st))
              @ [sortedItems st ! nat i]
              @ drop (nat j) (take (nat i) (sortedItems st) @ drop (Suc (nat i)) (sortedItems st))
          \<and> length (sortedItems (moveItem st i j)) = length (sortedItems st)
          \<and> mset (sortedItems (moveItem st i j)) = mset (sortedItems st)
          \<and> (\<forall>k < length (sortedItems st).
                sortedItems (moveItem st i j) ! k =
                  (if int k = j then sortedItems st ! nat i
                   else if i < j \<and> i \<le> int k \<and> int k < j then sortedItems st ! (k + 1)
                   else if j < i \<and> j < int k \<and> int k \<le> i then sortedItems st ! (k - 1)
                   else sortedItems st ! k))
          \<and> hasChanges (moveItem st i j))
       \<and> (j < 0 \<or> int (length (sortedItems st)) \<le> j \<longrightarrow> moveItem st i j = st)"
proof (intro conjI impI)
  assume "j < 0 \<or> int (length (sortedItems st)) \<le> j"
  then show "moveItem st i j = st" by (auto simp: moveItem_def)
next
  assume j: "0 \<le> j \<and> j < int (length (sortedItems st))"
  define xs where "xs = sortedItems st"
  define m where "m = nat i"
  define n where "n = nat j"
  have mn: "m < length xs" "n < length xs" "i = int m" "j = int n"
    using assms j by (auto simp: xs_def m_def n_def)
  have eq: "sortedItems (moveItem st (int m) (int n)) =
         take n (take m xs @ drop (Suc m) xs) @ [xs ! m] @ drop n (take m xs @ drop (Suc m) xs)"
    using moveItem_in_range [OF mn(1) mn(2)] xs_def by simp
  show "sortedItems (moveItem st i j) =
              take (nat j) (take (nat i) (sortedItems st) @ drop (Suc (nat i)) (sortedItems st))
              @ [sortedItems st ! nat i]
              @ drop (nat j) (take (nat i) (sortedItems st) @ drop (Suc (nat i)) (sortedItems st))"
    using eq by (simp add: mn(3,4) xs_def)
  show "length (sortedItems (moveItem st i j)) = length (sortedItems st)"
    unfolding mn(3,4) eq using mn(1,2) by (simp add: xs_def [symmetric]) 
  show "mset (sortedItems (moveItem st i j)) = mset (sortedItems st)"
    unfolding mn(3,4) eq using move_mset [OF mn(1)] by (simp add: xs_def)
  show "\<forall>k < length (sortedItems st).
                sortedItems (moveItem st i j) ! k =
                  (if int k = j then sortedItems st ! nat i
                   else if i < j \<and> i \<le> int k \<and> int k < j then sortedItems st ! (k + 1)
                   else if j < i \<and> j < int k \<and> int k \<le> i then sortedItems st ! (k - 1)
                   else sortedItems st ! k)"
  proof (intro allI impI)
    fix k assume "k < length (sortedItems st)"
    then have k: "k < length xs" by (simp add: xs_def)
    show "sortedItems (moveItem st i j) ! k =
                  (if int k = j then sortedItems st ! nat i
                   else if i < j \<and> i \<le> int k \<and> int k < j then sortedItems st ! (k + 1)
                   else if j < i \<and> j < int k \<and> int k \<le> i then sortedItems st ! (k - 1)
                   else sortedItems st ! k)"
      unfolding mn(3,4) eq move_nth [OF mn(1) mn(2) k] by (simp add: xs_def)
  qed
  show "hasChanges (moveItem st i j)"
    using j by (simp add: moveItem_def Let_def split: prod.splits)
qed

theorem moveItem_moves_witness:
  "sortedItems (moveItem \<lparr>sortedItems = [Some ''A'', Some ''B'', Some ''C'', Some ''D''], hasChanges = False\<rparr> 0 2)
     = [Some ''B'', Some ''C'', Some ''A'', Some ''D'']
   \<and> moveItem \<lparr>sortedItems = [Some ''A'', Some ''B'', Some ''C'', Some ''D''], hasChanges = False\<rparr> 0 4
     = \<lparr>sortedItems = [Some ''A'', Some ''B'', Some ''C'', Some ''D''], hasChanges = False\<rparr>"
  using moveItem_moves [of 0 "\<lparr>sortedItems = [Some ''A'', Some ''B'', Some ''C'', Some ''D''], hasChanges = False\<rparr>" 2]
        moveItem_moves [of 0 "\<lparr>sortedItems = [Some ''A'', Some ''B'', Some ''C'', Some ''D''], hasChanges = False\<rparr>" 4]
  by simp

section \<open>Sorting for display\<close>

lemma mset_insert_by: "mset (insert_by cmp x ys) = add_mset x (mset ys)"
  by (induction ys) auto

lemma mset_sort_js: "mset (sort_js cmp xs) = mset xs"
  by (induction xs) (auto simp: sort_js_def mset_insert_by)

lemma set_insert_by: "set (insert_by cmp x ys) = insert x (set ys)"
  using mset_insert_by [of cmp x ys] by (metis set_mset_add_mset_insert set_mset_mset)

lemma set_sort_js: "set (sort_js cmp xs) = set xs"
  using mset_sort_js [of cmp xs] by (metis set_mset_mset)

lemma sorted_wrt_insert_by:
  assumes "\<forall>y \<in> set ys. (cmp x y \<le> 0 \<longrightarrow> Q x y) \<and> (\<not> cmp x y \<le> 0 \<longrightarrow> Q y x)"
      and "\<forall>y \<in> set ys. \<forall>z \<in> set ys. Q x y \<longrightarrow> Q y z \<longrightarrow> Q x z"
      and "sorted_wrt Q ys"
  shows "sorted_wrt Q (insert_by cmp x ys)"
  using assms
proof (induction ys)
  case Nil
  show ?case by simp
next
  case (Cons y ys)
  have s: "sorted_wrt Q ys" and yz: "\<forall>z \<in> set ys. Q y z"
    using Cons.prems(3) by simp_all
  have y1: "(cmp x y \<le> 0 \<longrightarrow> Q x y) \<and> (\<not> cmp x y \<le> 0 \<longrightarrow> Q y x)"
    using Cons.prems(1) by simp
  show ?case
  proof (cases "cmp x y \<le> 0")
    case True
    have xy: "Q x y" using y1 True by blast
    have "\<forall>z \<in> set ys. Q x z"
    proof
      fix z assume z: "z \<in> set ys"
      have "Q y z" using yz z by blast
      moreover have "y \<in> set (y # ys)" "z \<in> set (y # ys)" using z by simp_all
      ultimately show "Q x z" using Cons.prems(2) xy by blast
    qed
    then show ?thesis using True xy s yz by simp
  next
    case False
    have yx: "Q y x" using y1 False by blast
    have p1: "\<forall>y \<in> set ys. (cmp x y \<le> 0 \<longrightarrow> Q x y) \<and> (\<not> cmp x y \<le> 0 \<longrightarrow> Q y x)"
    proof
      fix z assume "z \<in> set ys"
      then have "z \<in> set (y # ys)" by simp
      then show "(cmp x z \<le> 0 \<longrightarrow> Q x z) \<and> (\<not> cmp x z \<le> 0 \<longrightarrow> Q z x)"
        using Cons.prems(1) by blast
    qed
    have p2: "\<forall>y \<in> set ys. \<forall>z \<in> set ys. Q x y \<longrightarrow> Q y z \<longrightarrow> Q x z"
    proof (intro ballI impI)
      fix u z assume "u \<in> set ys" "z \<in> set ys" and q: "Q x u" "Q u z"
      then have "u \<in> set (y # ys)" "z \<in> set (y # ys)" by simp_all
      then show "Q x z" using Cons.prems(2) q by blast
    qed
    have ih: "sorted_wrt Q (insert_by cmp x ys)"
      by (rule Cons.IH) (rule p1, rule p2, rule s)
    have "\<forall>z \<in> set (insert_by cmp x ys). Q y z"
      using yx yz by (simp add: set_insert_by)
    then show ?thesis using False ih by simp
  qed
qed

lemma sorted_wrt_sort_js:
  assumes "\<forall>x \<in> set xs. \<forall>y \<in> set xs. (cmp x y \<le> 0 \<longrightarrow> Q x y) \<and> (\<not> cmp x y \<le> 0 \<longrightarrow> Q y x)"
      and "\<forall>x \<in> set xs. \<forall>y \<in> set xs. \<forall>z \<in> set xs. Q x y \<longrightarrow> Q y z \<longrightarrow> Q x z"
  shows "sorted_wrt Q (sort_js cmp xs)"
  using assms
proof (induction xs)
  case Nil
  show ?case by (simp add: sort_js_def)
next
  case (Cons x xs)
  have sub: "\<And>u. u \<in> set xs \<Longrightarrow> u \<in> set (x # xs)" by simp
  have hd: "x \<in> set (x # xs)" by simp
  have p1: "\<forall>x \<in> set xs. \<forall>y \<in> set xs. (cmp x y \<le> 0 \<longrightarrow> Q x y) \<and> (\<not> cmp x y \<le> 0 \<longrightarrow> Q y x)"
  proof (intro ballI)
    fix u v assume "u \<in> set xs" "v \<in> set xs"
    then have "u \<in> set (x # xs)" "v \<in> set (x # xs)" by simp_all
    then show "(cmp u v \<le> 0 \<longrightarrow> Q u v) \<and> (\<not> cmp u v \<le> 0 \<longrightarrow> Q v u)"
      using Cons.prems(1) by blast
  qed
  have p2: "\<forall>x \<in> set xs. \<forall>y \<in> set xs. \<forall>z \<in> set xs. Q x y \<longrightarrow> Q y z \<longrightarrow> Q x z"
  proof (intro ballI impI)
    fix u v w assume "u \<in> set xs" "v \<in> set xs" "w \<in> set xs" and q: "Q u v" "Q v w"
    then have "u \<in> set (x # xs)" "v \<in> set (x # xs)" "w \<in> set (x # xs)" by simp_all
    then show "Q u w" using Cons.prems(2) q by blast
  qed
  have ih: "sorted_wrt Q (sort_js cmp xs)"
    by (rule Cons.IH) (rule p1, rule p2)
  have q1: "\<forall>y \<in> set (sort_js cmp xs). (cmp x y \<le> 0 \<longrightarrow> Q x y) \<and> (\<not> cmp x y \<le> 0 \<longrightarrow> Q y x)"
  proof
    fix v assume "v \<in> set (sort_js cmp xs)"
    then have "v \<in> set (x # xs)" by (simp add: set_sort_js)
    then show "(cmp x v \<le> 0 \<longrightarrow> Q x v) \<and> (\<not> cmp x v \<le> 0 \<longrightarrow> Q v x)"
      using Cons.prems(1) hd by blast
  qed
  have q2: "\<forall>y \<in> set (sort_js cmp xs). \<forall>z \<in> set (sort_js cmp xs). Q x y \<longrightarrow> Q y z \<longrightarrow> Q x z"
  proof (intro ballI impI)
    fix v w assume "v \<in> set (sort_js cmp xs)" "w \<in> set (sort_js cmp xs)" and q: "Q x v" "Q v w"
    then have "v \<in> set (x # xs)" "w \<in> set (x # xs)" by (simp_all add: set_sort_js)
    then show "Q x w" using Cons.prems(2) hd q by blast
  qed
  have "sorted_wrt Q (insert_by cmp x (sort_js cmp xs))"
    by (rule sorted_wrt_insert_by) (rule q1, rule q2, rule ih)
  then show ?case by (simp add: sort_js_def)
qed

lemma compareOrder_le_key:
  "compareOrder g a b \<le> 0 \<Longrightarrow> order_or 999999 a \<le> order_or 999999 b"
  by (auto simp: compareOrder_def Let_def split: if_splits)

lemma compareOrder_gt_key:
  "\<not> compareOrder g a b \<le> 0 \<Longrightarrow> order_or 999999 b \<le> order_or 999999 a"
  by (auto simp: compareOrder_def Let_def split: if_splits)

lemma compareOrder_le_newest:
  assumes "g (createdAt_of a) \<noteq> None" "g (createdAt_of b) \<noteq> None"
  shows "compareOrder g a b \<le> 0 \<longleftrightarrow> order_then_newest g a b"
  using assms by (auto simp: compareOrder_def order_then_newest_def Let_def)

lemma order_then_newest_total:
  assumes "g (createdAt_of a) \<noteq> None" "g (createdAt_of b) \<noteq> None"
  shows "order_then_newest g a b \<or> order_then_newest g b a"
  using assms by (auto simp: order_then_newest_def)

lemma order_then_newest_iff:
  "order_then_newest g a b \<longleftrightarrow>
     (order_or 999999 a < order_or 999999 b \<or>
      (order_or 999999 a = order_or 999999 b \<and>
       (\<exists>ta tb. g (createdAt_of a) = Some ta \<and> g (createdAt_of b) = Some tb \<and> tb \<le> ta)))"
  by (cases "g (createdAt_of a)"; cases "g (createdAt_of b)")
     (simp_all add: order_then_newest_def)

lemma order_then_newest_trans:
  assumes "order_then_newest g a b" "order_then_newest g b c"
  shows "order_then_newest g a c"
  using assms unfolding order_then_newest_iff
  by (elim disjE conjE exE; simp)

lemma missing_order_key: "\<not> has_order a \<Longrightarrow> order_or d a = d"
  by (auto simp: has_order_def order_or_def split: json.splits)

lemma has_order_key: "has_order a \<Longrightarrow> order_or d a = order_or 0 a"
  by (auto simp: has_order_def order_or_def split: json.splits)

text \<open>
  Claim C4, as amended. The sorted list has the items of the input, in ascending
  \<open>order\<close> where a missing order counts as 999999; when every \<open>createdAt\<close> is a
  valid date, items of equal order (the ones without an order among them) come newest
  first; an item without an order comes after every item whose order is below 999999;
  and when the orders are distinct they are strictly ascending.
\<close>

theorem sortedCompanies_display_order:
  "mset (sortedCompanies getTime items) = mset items
   \<and> sorted_wrt (\<lambda>a b. order_or 999999 a \<le> order_or 999999 b) (sortedCompanies getTime items)
   \<and> ((\<forall>a \<in> set items. getTime (createdAt_of a) \<noteq> None) \<longrightarrow>
        sorted_wrt (order_then_newest getTime) (sortedCompanies getTime items))
   \<and> (\<forall>i j. i < length items \<and> j < length items
          \<and> \<not> has_order (sortedCompanies getTime items ! i)
          \<and> has_order (sortedCompanies getTime items ! j)
          \<and> order_or 0 (sortedCompanies getTime items ! j) < 999999 \<longrightarrow> j < i)
   \<and> (distinct (map (order_or 999999) items) \<longrightarrow>
        sorted_wrt (<) (map (order_or 999999) (sortedCompanies getTime items)))"
proof -
  let ?ys = "sortedCompanies getTime items"
  let ?key = "order_or 999999"
  have m: "mset ?ys = mset items"
    by (simp add: sortedCompanies_def mset_sort_js)
  have len: "length ?ys = length items"
    using m by (metis size_mset)
  have k: "sorted_wrt (\<lambda>a b. ?key a \<le> ?key b) ?ys"
    unfolding sortedCompanies_def
  proof (rule sorted_wrt_sort_js)
    show "\<forall>x \<in> set items. \<forall>y \<in> set items.
            (compareOrder getTime x y \<le> 0 \<longrightarrow> ?key x \<le> ?key y) \<and>
            (\<not> compareOrder getTime x y \<le> 0 \<longrightarrow> ?key y \<le> ?key x)"
      using compareOrder_le_key compareOrder_gt_key by blast
    show "\<forall>x \<in> set items. \<forall>y \<in> set items. \<forall>z \<in> set items.
            ?key x \<le> ?key y \<longrightarrow> ?key y \<le> ?key z \<longrightarrow> ?key x \<le> ?key z"
      by simp
  qed
  have n: "sorted_wrt (order_then_newest getTime) ?ys"
    if v: "\<forall>a \<in> set items. getTime (createdAt_of a) \<noteq> None"
    unfolding sortedCompanies_def
  proof (rule sorted_wrt_sort_js)
    show "\<forall>x \<in> set items. \<forall>y \<in> set items.
            (compareOrder getTime x y \<le> 0 \<longrightarrow> order_then_newest getTime x y) \<and>
            (\<not> compareOrder getTime x y \<le> 0 \<longrightarrow> order_then_newest getTime y x)"
    proof (intro ballI conjI impI)
      fix x y assume "x \<in> set items" "y \<in> set items" "compareOrder getTime x y \<le> 0"
      then show "order_then_newest getTime x y" using v compareOrder_le_newest by blast
    next
      fix x y assume xy: "x \<in> set items" "y \<in> set items" "\<not> compareOrder getTime x y \<le> 0"
      then have "\<not> order_then_newest getTime x y" using v compareOrder_le_newest by blast
      then show "order_then_newest getTime y x"
        using order_then_newest_total [of getTime x y] v xy by blast
    qed
    show "\<forall>x \<in> set items. \<forall>y \<in> set items. \<forall>z \<in> set items.
            order_then_newest getTime x y \<longrightarrow> order_then_newest getTime y z \<longrightarrow>
            order_then_newest getTime x z"
      using order_then_newest_trans by blast
  qed
  have p: "j < i"
    if h: "i < length items \<and> j < length items \<and> \<not> has_order (?ys ! i) \<and> has_order (?ys ! j)
           \<and> order_or 0 (?ys ! j) < 999999" for i j
  proof (rule ccontr)
    assume "\<not> j < i"
    moreover have "i \<noteq> j" using h by auto
    ultimately have "i < j" by simp
    then have "?key (?ys ! i) \<le> ?key (?ys ! j)"
      using k h len by (simp add: sorted_wrt_iff_nth_less)
    moreover have "?key (?ys ! i) = 999999" using h by (simp add: missing_order_key)
    moreover have "?key (?ys ! j) < 999999" using h has_order_key [of "?ys ! j" 999999] by simp
    ultimately show False by simp
  qed
  have d: "sorted_wrt (<) (map ?key ?ys)" if dist: "distinct (map ?key items)"
  proof -
    have "mset (map ?key ?ys) = mset (map ?key items)" using m by simp
    then have "distinct (map ?key ?ys)" using dist by (metis mset_eq_imp_distinct_iff)
    moreover have "sorted (map ?key ?ys)" using k by (simp add: sorted_map)
    ultimately show ?thesis by (simp add: strict_sorted_iff)
  qed
  show ?thesis using m k n p d by blast
qed

theorem sortedCompanies_display_order_witness:
  "sortedCompanies (\<lambda>s. Some (int (length s)))
     [[(''id'', JStr ''C'')], [(''id'', JStr ''B''), (''order'', JNum 1), (''createdAt'', JStr ''x'')],
      [(''id'', JStr ''A''), (''order'', JNum 0)], [(''id'', JStr ''D''), (''order'', JNum 1), (''createdAt'', JStr ''xx'')]]
   = [[(''id'', JStr ''A''), (''order'', JNum 0)], [(''id'', JStr ''D''), (''order'', JNum 1), (''createdAt'', JStr ''xx'')],
      [(''id'', JStr ''B''), (''order'', JNum 1), (''createdAt'', JStr ''x'')], [(''id'', JStr ''C'')]]
   \<and> sorted_wrt (order_then_newest (\<lambda>s. Some (int (length s))))
       [[(''id'', JStr ''A''), (''order'', JNum 0)], [(''id'', JStr ''D''), (''order'', JNum 1), (''createdAt'', JStr ''xx'')],
      [(''id'', JStr ''B''), (''order'', JNum 1), (''createdAt'', JStr ''x'')], [(''id'', JStr ''C'')]]"
proof -
  let ?items = "[[(''id'', JStr ''C'')], [(''id'', JStr ''B''), (''order'', JNum 1), (''createdAt'', JStr ''x'')],
      [(''id'', JStr ''A''), (''order'', JNum 0)], [(''id'', JStr ''D''), (''order'', JNum 1), (''createdAt'', JStr ''xx'')]]"
  have e: "sortedCompanies (\<lambda>s. Some (int (length s))) ?items
     = [[(''id'', JStr ''A''), (''order'', JNum 0)], [(''id'', JStr ''D''), (''order'', JNum 1), (''createdAt'', JStr ''xx'')],
      [(''id'', JStr ''B''), (''order'', JNum 1), (''createdAt'', JStr ''x'')], [(''id'', JStr ''C'')]]"
    by (simp add: sortedCompanies_def sort_js_def compareOrder_def order_or_def prop_of_def createdAt_of_def)
  have v: "\<forall>a \<in> set ?items. (\<lambda>s. Some (int (length s))) (createdAt_of a) \<noteq> None" by simp
  show ?thesis
    using sortedCompanies_display_order [of "\<lambda>s. Some (int (length s))" ?items] v e by simp
qed

text \<open>
  Claim C4 as stated fails: an item with the order 1000000 is placed after an item that
  has no order.
\<close>

theorem missing_order_not_last:
  "sortedCompanies (\<lambda>s. Some 0)
     [[(''id'', JStr ''A''), (''order'', JNum 1000000)], [(''id'', JStr ''B'')]]
   = [[(''id'', JStr ''B'')], [(''id'', JStr ''A''), (''order'', JNum 1000000)]]"
  by (simp add: sortedCompanies_def sort_js_def compareOrder_def order_or_def prop_of_def createdAt_of_def)

section \<open>What a request resolves with\<close>

lemma makeRequest_Issued:
  assumes "makeRequest st now url options cacheKey = (Issued p, st1)"
  shows "p = length (promises st)"
    and "st1 = st\<lparr>promises := promises st @ [Fetching url options cacheKey],
                   pendingRequests := (pendingRequests st)(requestKey url options \<mapsto> p),
                   fetches := fetches st @ [(url, options)]\<rparr>"
    and "pendingRequests st (requestKey url options) = None"
  using assms
  by (auto simp: makeRequest_def Let_def split: if_splits option.splits)

lemma fetchSettles_Responds:
  assumes "p < length (promises st)" "promises st ! p = Fetching url options cacheKey"
  shows "fetchSettles st p (Responds resp) =
           st\<lparr>pendingRequests := (pendingRequests st)(requestKey url options := None),
              promises := (promises st)[p := Reading resp url options cacheKey]\<rparr>"
  using assms by (simp add: fetchSettles_def)

lemma fetchSettles_Rejects:
  assumes "p < length (promises st)" "promises st ! p = Fetching url options cacheKey"
  shows "fetchSettles st p (Rejects msg) =
           st\<lparr>pendingRequests := (pendingRequests st)(requestKey url options := None),
              promises := (promises st)[p := Settled (Inl (NetworkError msg))]\<rparr>"
  using assms by (simp add: fetchSettles_def)

lemma bodyArrives_Reading:
  assumes "p < length (promises st)" "promises st ! p = Reading resp url options cacheKey"
  shows "promises (bodyArrives st now p) = (promises st)[p := Settled (readResponse resp)]"
    and "fetches (bodyArrives st now p) = fetches st"
    and "readResponse resp = Inr d \<Longrightarrow> pendingRequests (bodyArrives st now p) = pendingRequests st"
    and "readResponse resp = Inr d \<Longrightarrow> cachedGet cacheKey options \<Longrightarrow>
           cache (bodyArrives st now p) = (cache st)(the cacheKey \<mapsto> \<lparr>data = d, timestamp = now\<rparr>)"
    and "\<not> cachedGet cacheKey options \<Longrightarrow> cache (bodyArrives st now p) = cache st"
    and "readResponse resp = Inl e \<Longrightarrow>
           pendingRequests (bodyArrives st now p) = (pendingRequests st)(requestKey url options := None)"
  using assms
  by (auto simp: bodyArrives_def setCachedData_def split: sum.splits)

lemma respond_Issued:
  assumes "makeRequest st now url options cacheKey = (Issued p, st1)"
  shows "promises (respond st1 t p resp) = promises st @ [Settled (readResponse resp)]"
    and "fetches (respond st1 t p resp) = fetches st @ [(url, options)]"
    and "readResponse resp = Inr d \<Longrightarrow> pendingRequests (respond st1 t p resp) = pendingRequests st"
    and "readResponse resp = Inr d \<Longrightarrow> cachedGet cacheKey options \<Longrightarrow>
           cache (respond st1 t p resp) = (cache st)(the cacheKey \<mapsto> \<lparr>data = d, timestamp = t\<rparr>)"
    and "\<not> cachedGet cacheKey options \<Longrightarrow> cache (respond st1 t p resp) = cache st"
    and "pendingRequests (respond st1 t p resp) (requestKey url options) = None"
proof -
  note i = makeRequest_Issued [OF assms]
  have p: "p < length (promises st1)" "promises st1 ! p = Fetching url options cacheKey"
    using i(1,2) by simp_all
  let ?s2 = "fetchSettles st1 p (Responds resp)"
  have s2: "?s2 = st1\<lparr>pendingRequests := (pendingRequests st1)(requestKey url options := None),
              promises := (promises st1)[p := Reading resp url options cacheKey]\<rparr>"
    by (rule fetchSettles_Responds [OF p])
  have q: "p < length (promises ?s2)" "promises ?s2 ! p = Reading resp url options cacheKey"
    using p(1) by (simp_all add: s2)
  note b = bodyArrives_Reading [OF q]
  have "pendingRequests ?s2 = (pendingRequests st1)(requestKey url options := None)"
    by (simp add: s2)
  also have "\<dots> = (pendingRequests st)(requestKey url options := None)"
    by (simp add: i(2))
  also have "\<dots> = pendingRequests st"
    using i(3) by (simp add: fun_upd_idem)
  finally have pend2: "pendingRequests ?s2 = pendingRequests st" .
  have prom2: "promises ?s2 = promises st @ [Reading resp url options cacheKey]"
    unfolding s2 by (simp add: i(2) i(1))
  have fet2: "fetches ?s2 = fetches st @ [(url, options)]"
    unfolding s2 by (simp add: i(2))
  have cache2: "cache ?s2 = cache st"
    unfolding s2 by (simp add: i(2))
  show "promises (respond st1 t p resp) = promises st @ [Settled (readResponse resp)]"
    unfolding respond_def b(1) prom2 by (simp add: i(1))
  show "fetches (respond st1 t p resp) = fetches st @ [(url, options)]"
    unfolding respond_def b(2) fet2 by simp
  show "readResponse resp = Inr d \<Longrightarrow> pendingRequests (respond st1 t p resp) = pendingRequests st"
    unfolding respond_def using b(3) pend2 by simp
  show "readResponse resp = Inr d \<Longrightarrow> cachedGet cacheKey options \<Longrightarrow>
           cache (respond st1 t p resp) = (cache st)(the cacheKey \<mapsto> \<lparr>data = d, timestamp = t\<rparr>)"
    unfolding respond_def using b(4) cache2 by simp
  show "\<not> cachedGet cacheKey options \<Longrightarrow> cache (respond st1 t p resp) = cache st"
    unfolding respond_def using b(5) cache2 by simp
  show "pendingRequests (respond st1 t p resp) (requestKey url options) = None"
  proof (cases "readResponse resp")
    case (Inl e)
    then show ?thesis unfolding respond_def using b(6) pend2 by simp
  next
    case (Inr d)
    then show ?thesis unfolding respond_def using b(3) pend2 i(3) by simp
  qed
qed

lemma received_respond:
  assumes "makeRequest st now url options cacheKey = (Issued p, st1)"
  shows "received (respond st1 t p resp) (Issued p) = Some (readResponse resp)"
  using respond_Issued(1) [OF assms, of t resp] makeRequest_Issued(1) [OF assms]
  by (simp add: received_def)

lemma readResponse_not_ok:
  "\<not> ok resp \<Longrightarrow>
     readResponse resp = Inl (Error (''HTTP '' @ show_nat (status resp) @ '': '' @ body_text resp))"
  by (simp add: readResponse_def)

lemma readResponse_failure:
  "ok resp \<Longrightarrow> body_json resp = Some (JObj env) \<Longrightarrow> \<not> truthy (prop_of env ''success'') \<Longrightarrow>
     readResponse resp =
       Inl (Error (if truthy (prop_of env ''error'') then js_to_string (prop_of env ''error'')
                   else ''API request failed''))"
  by (simp add: readResponse_def)

lemma readResponse_success:
  "ok resp \<Longrightarrow> body_json resp = Some (JObj env) \<Longrightarrow> truthy (prop_of env ''success'') \<Longrightarrow>
     readResponse resp = Inr (prop_of env ''data'')"
  by (simp add: readResponse_def)

text \<open>
  Claim C7. For a request that \<open>makeRequest\<close> has sent: a response that is not 2xx
  rejects with the error \<open>HTTP <status>: <body text>\<close>; a 2xx response whose envelope
  has a false \<open>success\<close> rejects with the envelope's error message, or with
  \<open>API request failed\<close> when it has none; a 2xx response whose envelope has a true
  \<open>success\<close> resolves with the \<open>data\<close> field.
\<close>

theorem makeRequest_failure_semantics:
  assumes "makeRequest st now url options cacheKey = (Issued p, st1)"
  shows "(\<not> ok resp \<longrightarrow>
            received (respond st1 t p resp) (Issued p) =
              Some (Inl (Error (''HTTP '' @ show_nat (status resp) @ '': '' @ body_text resp))))
       \<and> (ok resp \<and> body_json resp = Some (JObj env) \<and> \<not> truthy (prop_of env ''success'') \<longrightarrow>
            received (respond st1 t p resp) (Issued p) =
              Some (Inl (Error (if truthy (prop_of env ''error'')
                                then js_to_string (prop_of env ''error'')
                                else ''API request failed''))))
       \<and> (ok resp \<and> body_json resp = Some (JObj env) \<and> truthy (prop_of env ''success'') \<longrightarrow>
            received (respond st1 t p resp) (Issued p) = Some (Inr (prop_of env ''data'')))"
  unfolding received_respond [OF assms]
  using readResponse_not_ok readResponse_failure readResponse_success by simp


lemma show_nat_404: "show_nat 404 = ''404''"
  by (simp add: show_nat.simps digit_char_def)

theorem makeRequest_failure_semantics_witness:
  "received (respond (snd (makeRequest client0 0 ''u'' plain_get None)) 5 0
      \<lparr>status = 404, body_text = ''gone'', body_json = None\<rparr>) (Issued 0)
     = Some (Inl (Error ''HTTP 404: gone''))
   \<and> received (respond (snd (makeRequest client0 0 ''u'' plain_get None)) 5 0
      \<lparr>status = 200, body_text = [],
       body_json = Some (JObj [(''success'', JBool False), (''error'', JStr ''Company not found'')])\<rparr>)
      (Issued 0)
     = Some (Inl (Error ''Company not found''))
   \<and> received (respond (snd (makeRequest client0 0 ''u'' plain_get None)) 5 0
      \<lparr>status = 200, body_text = [],
       body_json = Some (JObj [(''success'', JBool True), (''data'', JNum 7)])\<rparr>)
      (Issued 0)
     = Some (Inr (JNum 7))"
proof -
  have h: "makeRequest client0 0 ''u'' plain_get None
             = (Issued 0, snd (makeRequest client0 0 ''u'' plain_get None))"
    by (simp add: makeRequest_def client0_def cachedGet_def)
  show ?thesis
    using makeRequest_failure_semantics [OF h, of "\<lparr>status = 404, body_text = ''gone'', body_json = None\<rparr>" 5 "[]"]
          makeRequest_failure_semantics [OF h, of "\<lparr>status = 200, body_text = [],
             body_json = Some (JObj [(''success'', JBool False), (''error'', JStr ''Company not found'')])\<rparr>" 5
             "[(''success'', JBool False), (''error'', JStr ''Company not found'')]"]
          makeRequest_failure_semantics [OF h, of "\<lparr>status = 200, body_text = [],
             body_json = Some (JObj [(''success'', JBool True), (''data'', JNum 7)])\<rparr>" 5
             "[(''success'', JBool True), (''data'', JNum 7)]"]
    by (simp add: ok_def prop_of_def show_nat_404)
qed

section \<open>The cache and its time to live\<close>

lemma makeRequest_CacheHit:
  assumes "cachedGet cacheKey options" "truthy (getCachedData st now (the cacheKey))"
  shows "makeRequest st now url options cacheKey = (CacheHit (getCachedData st now (the cacheKey)), st)"
  using assms by (simp add: makeRequest_def)

lemma makeRequest_Joined:
  assumes "\<not> (cachedGet cacheKey options \<and> truthy (getCachedData st now (the cacheKey)))"
      and "pendingRequests st (requestKey url options) = Some p"
  shows "makeRequest st now url options cacheKey = (Joined p, st)"
  using assms by (simp add: makeRequest_def)

lemma makeRequest_fresh:
  assumes "\<not> (cachedGet cacheKey options \<and> truthy (getCachedData st now (the cacheKey)))"
      and "pendingRequests st (requestKey url options) = None"
  shows "makeRequest st now url options cacheKey =
           (Issued (length (promises st)),
            st\<lparr>promises := promises st @ [Fetching url options cacheKey],
               pendingRequests := (pendingRequests st)(requestKey url options \<mapsto> length (promises st)),
               fetches := fetches st @ [(url, options)]\<rparr>)"
  using assms by (simp add: makeRequest_def Let_def)

lemma CACHE_DURATION_ms: "CACHE_DURATION = 300000"
  by (simp add: CACHE_DURATION_def)

lemma getAll_first:
  "companyApi_getAll info0 client0 0 = (Issued 0, snd (companyApi_getAll info0 client0 0))"
  by (simp add: companyApi_getAll_def makeRequest_def client0_def getCachedData_def)


lemma cachedGet_getAll:
  "cachedGet (Some (getCacheKey ''companies_getAll'' None))
     \<lparr>http_method = None, headers = Some (createAuthHeaders i), body = None\<rparr>"
  by (simp add: cachedGet_def getCacheKey_def)

section \<open>Requests in flight\<close>

lemma reject_Issued:
  assumes "makeRequest st now url options cacheKey = (Issued p, st1)"
  shows "promises (fetchSettles st1 p (Rejects msg)) = promises st @ [Settled (Inl (NetworkError msg))]"
    and "fetches (fetchSettles st1 p (Rejects msg)) = fetches st @ [(url, options)]"
    and "pendingRequests (fetchSettles st1 p (Rejects msg)) = pendingRequests st"
    and "cache (fetchSettles st1 p (Rejects msg)) = cache st"
proof -
  note i = makeRequest_Issued [OF assms]
  have p: "p < length (promises st1)" "promises st1 ! p = Fetching url options cacheKey"
    using i(1,2) by simp_all
  let ?s2 = "fetchSettles st1 p (Rejects msg)"
  have s2: "?s2 = st1\<lparr>pendingRequests := (pendingRequests st1)(requestKey url options := None),
              promises := (promises st1)[p := Settled (Inl (NetworkError msg))]\<rparr>"
    by (rule fetchSettles_Rejects [OF p])
  show "promises ?s2 = promises st @ [Settled (Inl (NetworkError msg))]"
    unfolding s2 by (simp add: i(2) i(1))
  show "fetches ?s2 = fetches st @ [(url, options)]"
    unfolding s2 by (simp add: i(2))
  show "cache ?s2 = cache st"
    unfolding s2 by (simp add: i(2))
  have "pendingRequests ?s2 = (pendingRequests st1)(requestKey url options := None)"
    by (simp add: s2)
  also have "\<dots> = (pendingRequests st)(requestKey url options := None)"
    by (simp add: i(2))
  also have "\<dots> = pendingRequests st"
    using i(3) by (simp add: fun_upd_idem)
  finally show "pendingRequests ?s2 = pendingRequests st" .
qed

lemma issued_state:
  assumes "makeRequest st now url options cacheKey = (Issued p, st1)"
  shows "fetches st1 = fetches st @ [(url, options)]"
    and "pendingRequests st1 (requestKey url options) = Some p"
    and "cache st1 = cache st"
    and "length (promises st1) = Suc p"
  using makeRequest_Issued [OF assms] by simp_all



section \<open>Uploads share a request key\<close>

lemma upload_first:
  "reportApi_upload info0 client0 0 ''7'' upload_A
     = (Issued 0, snd (reportApi_upload info0 client0 0 ''7'' upload_A))"
  by (simp add: reportApi_upload_def makeRequest_def client0_def clearCachePattern_def cachedGet_def)

section \<open>Mutations and the cache\<close>

lemma cache_makeRequest: "cache (snd (makeRequest st now url options cacheKey)) = cache st"
  by (simp add: makeRequest_def Let_def split: option.splits)

lemma cleared:
  "js_includes key pattern \<Longrightarrow> cache (clearCachePattern st pattern) key = None"
  by (simp add: clearCachePattern_def)

lemma cleared_stays:
  "cache st key = None \<Longrightarrow> cache (clearCachePattern st pattern) key = None"
  by (simp add: clearCachePattern_def)

lemma mutate_form:
  "\<exists>st' url options.
     companyApi_mutate i st now m = makeRequest st' now url options None
     \<and> (\<forall>key. js_includes key ''companies'' \<longrightarrow> cache st' key = None)"
proof (cases m)
  case (Create d)
  show ?thesis unfolding Create companyApi_mutate.simps companyApi_create_def
    using cleared by blast
next
  case (Update ident d)
  show ?thesis unfolding Update companyApi_mutate.simps companyApi_update_def
    using cleared by blast
next
  case (Delete ident)
  show ?thesis unfolding Delete companyApi_mutate.simps companyApi_delete_def
    using cleared cleared_stays by blast
next
  case (UpdateOrder us)
  show ?thesis unfolding UpdateOrder companyApi_mutate.simps companyApi_updateOrder_def
    using cleared by blast
next
  case (UploadIcon ident f)
  show ?thesis unfolding UploadIcon companyApi_mutate.simps companyApi_uploadIcon_def
    using cleared by blast
next
  case (RemoveIcon ident)
  show ?thesis unfolding RemoveIcon companyApi_mutate.simps companyApi_removeIcon_def
    using cleared by blast
qed

lemma getAll_key_has_companies: "js_includes (getCacheKey ''companies_getAll'' None) ''companies''"
  by (simp add: getCacheKey_def)

lemma getAll_miss:
  assumes "cache st (getCacheKey ''companies_getAll'' None) = None"
  shows "fst (companyApi_getAll i st now) \<noteq> CacheHit v"
  using assms
  by (simp add: companyApi_getAll_def makeRequest_def getCachedData_def Let_def split: option.splits)

text \<open>
  Claim C3, as amended. Each of the six company mutations removes, when it is called,
  every cache entry whose key contains \<open>companies\<close>; and when the mutation has sent its
  request and completes with no other step of the client in between, the cache still
  holds no such entry and a following \<open>getAll\<close> is not answered from the cache.
\<close>

theorem mutation_clears_company_cache:
  "(\<forall>key. js_includes key ''companies'' \<longrightarrow> cache (snd (companyApi_mutate i st t m)) key = None)
   \<and> (fst (companyApi_mutate i st t m) = Issued p \<longrightarrow>
        (\<forall>key. js_includes key ''companies'' \<longrightarrow>
           cache (respond (snd (companyApi_mutate i st t m)) t1 p resp) key = None)
      \<and> fst (companyApi_getAll i (respond (snd (companyApi_mutate i st t m)) t1 p resp) t2)
           \<noteq> CacheHit v)"
proof -
  obtain st' url options where
    f: "companyApi_mutate i st t m = makeRequest st' t url options None"
    and c: "\<forall>key. js_includes key ''companies'' \<longrightarrow> cache st' key = None"
    using mutate_form by blast
  let ?s1 = "snd (companyApi_mutate i st t m)"
  have c1: "cache ?s1 = cache st'"
    unfolding f by (rule cache_makeRequest)
  have a: "\<forall>key. js_includes key ''companies'' \<longrightarrow> cache ?s1 key = None"
    unfolding c1 by (rule c)
  have b: "(\<forall>key. js_includes key ''companies'' \<longrightarrow> cache (respond ?s1 t1 p resp) key = None)
      \<and> fst (companyApi_getAll i (respond ?s1 t1 p resp) t2) \<noteq> CacheHit v"
    if iss: "fst (companyApi_mutate i st t m) = Issued p"
  proof -
    have "makeRequest st' t url options None = (Issued p, snd (makeRequest st' t url options None))"
      using iss unfolding f by (simp add: prod_eq_iff)
    note r = respond_Issued(5) [OF this, of t1 resp]
    have n: "\<not> cachedGet None options" by (simp add: cachedGet_def)
    have c2: "cache (respond ?s1 t1 p resp) = cache st'"
      unfolding f using r n by simp
    have k: "\<forall>key. js_includes key ''companies'' \<longrightarrow> cache (respond ?s1 t1 p resp) key = None"
      unfolding c2 by (rule c)
    have "cache (respond ?s1 t1 p resp) (getCacheKey ''companies_getAll'' None) = None"
      using k getAll_key_has_companies by blast
    then have "fst (companyApi_getAll i (respond ?s1 t1 p resp) t2) \<noteq> CacheHit v"
      by (rule getAll_miss)
    then show ?thesis using k by blast
  qed
  show ?thesis using a b by blast
qed


text \<open>
  Claim C3 as stated fails when a read and a mutation interleave: \<open>getAll\<close> is sent, a
  company is deleted (the cache is cleared at the call), the list read before the
  deletion arrives and is stored, the deletion succeeds, and the next \<open>getAll\<close> returns
  the stored list, which still has the deleted company.
\<close>

theorem stale_list_after_mutation:
  "fst (companyApi_delete info0 (snd (companyApi_getAll info0 client0 0)) 1 ''2'') = Issued 1
   \<and> received (respond (respond
          (snd (companyApi_delete info0 (snd (companyApi_getAll info0 client0 0)) 1 ''2''))
          2 0 list_of_two) 3 1 done_reply) (Issued 1) = Some (Inr JUndefined)
   \<and> fst (companyApi_getAll info0
        (respond (respond
          (snd (companyApi_delete info0 (snd (companyApi_getAll info0 client0 0)) 1 ''2''))
          2 0 list_of_two) 3 1 done_reply) 4)
     = CacheHit two_companies"
  by (simp add: companyApi_getAll_def companyApi_delete_def makeRequest_def respond_def
        fetchSettles_def bodyArrives_def readResponse_def clearCachePattern_def client0_def
        getCachedData_def setCachedData_def cachedGet_def getCacheKey_def list_of_two_def
        done_reply_def two_companies_def c_json_def ok_def prop_of_def CACHE_DURATION_def
        requestKey_def API_BASE_URL_def info0_def received_def Let_def)


lemma warm_cache:
  "cache warm_client ''companies_getAll'' = Some \<lparr>data = two_companies, timestamp = 1\<rparr>"
  by (simp add: warm_client_def companyApi_getAll_def makeRequest_def respond_def
        fetchSettles_def bodyArrives_def readResponse_def client0_def
        getCachedData_def setCachedData_def cachedGet_def getCacheKey_def list_of_two_def
        two_companies_def c_json_def ok_def prop_of_def Let_def)

lemma warm_delete:
  "fst (companyApi_mutate info0 warm_client 5 (Delete ''2'')) = Issued 1"
  by (simp add: warm_client_def companyApi_getAll_def companyApi_delete_def makeRequest_def
        respond_def fetchSettles_def bodyArrives_def readResponse_def clearCachePattern_def
        client0_def getCachedData_def setCachedData_def cachedGet_def getCacheKey_def
        list_of_two_def two_companies_def c_json_def ok_def prop_of_def
        requestKey_def API_BASE_URL_def info0_def Let_def)

theorem mutation_clears_company_cache_witness:
  "cache warm_client ''companies_getAll'' \<noteq> None
   \<and> cache (snd (companyApi_mutate info0 warm_client 5 (Delete ''2''))) ''companies_getAll'' = None
   \<and> fst (companyApi_getAll info0
        (respond (snd (companyApi_mutate info0 warm_client 5 (Delete ''2''))) 6 1 done_reply) 7)
       \<noteq> CacheHit two_companies"
proof -
  note T = mutation_clears_company_cache
             [of info0 warm_client 5 "Delete ''2''" 1 6 done_reply 7 two_companies]
  have k: "js_includes ''companies_getAll'' ''companies''" by simp
  note a = T [THEN conjunct1, THEN spec, THEN mp, OF k]
  note b = T [THEN conjunct2, THEN mp, OF warm_delete, THEN conjunct2]
  show ?thesis using a b warm_cache by simp
qed

section \<open>The download link\<close>

lemma download_reply:
  assumes "kv_get (kv sv) (''report:'' @ companyId @ '':'' @ reportId) = Some report"
      and "createSignedUrl ''make-78971119-reports'' (prop_of report ''filePath'') 3600 = Some signedUrl"
  shows "get_report_download createSignedUrl sv companyId reportId
           = c_json [(''success'', JBool True), (''downloadUrl'', JStr signedUrl)] 200"
  using assms by (simp add: get_report_download_def)

lemma readResponse_download:
  "readResponse (c_json [(''success'', JBool True), (''downloadUrl'', JStr signedUrl)] 200)
     = Inr JUndefined"
  by (simp add: readResponse_def c_json_def ok_def prop_of_def)

text \<open>
  Claim C8 does not hold of the code. For an existing report whose path the blob store
  signs, the handler answers \<open>{success: true, downloadUrl: <signed URL>}\<close>, with the
  URL signed for 3600 seconds beside \<open>success\<close> and no \<open>data\<close> field; so
  \<open>makeRequest\<close> resolves with \<open>undefined\<close>, and reading \<open>downloadUrl\<close> of it
  in \<open>getDownloadUrl\<close> throws a TypeError instead of returning the URL.
\<close>

theorem getDownloadUrl_rejects:
  assumes "kv_get (kv sv) (''report:'' @ companyId @ '':'' @ reportId) = Some report"
      and "createSignedUrl ''make-78971119-reports'' (prop_of report ''filePath'') 3600 = Some signedUrl"
      and "reportApi_getDownloadUrl i st t companyId reportId = (Issued p, st1)"
  shows "body_json (get_report_download createSignedUrl sv companyId reportId)
           = Some (JObj [(''success'', JBool True), (''downloadUrl'', JStr signedUrl)])
       \<and> received (respond st1 t1 p (get_report_download createSignedUrl sv companyId reportId))
            (Issued p) = Some (Inr JUndefined)
       \<and> map_option getDownloadUrl_result
            (received (respond st1 t1 p (get_report_download createSignedUrl sv companyId reportId))
               (Issued p)) = Some (Inl TypeError)"
proof -
  note d = download_reply [where createSignedUrl = createSignedUrl, OF assms(1,2)]
  have a: "body_json (get_report_download createSignedUrl sv companyId reportId)
           = Some (JObj [(''success'', JBool True), (''downloadUrl'', JStr signedUrl)])"
    unfolding d by (simp add: c_json_def)
  have b: "received (respond st1 t1 p (get_report_download createSignedUrl sv companyId reportId))
            (Issued p) = Some (Inr JUndefined)"
    unfolding d received_respond [OF assms(3) [unfolded reportApi_getDownloadUrl_def]]
    by (simp add: readResponse_download)
  have c: "map_option getDownloadUrl_result
            (received (respond st1 t1 p (get_report_download createSignedUrl sv companyId reportId))
               (Issued p)) = Some (Inl TypeError)"
    unfolding b by (simp add: getDownloadUrl_result_def)
  show ?thesis by (intro conjI) (rule a b c)+
qed

lemma download_first:
  "reportApi_getDownloadUrl info0 client0 0 ''c1'' ''r1''
     = (Issued 0, snd (reportApi_getDownloadUrl info0 client0 0 ''c1'' ''r1''))"
  by (simp add: reportApi_getDownloadUrl_def makeRequest_def client0_def cachedGet_def)

theorem getDownloadUrl_rejects_witness:
  "map_option getDownloadUrl_result
     (received (respond (snd (reportApi_getDownloadUrl info0 client0 0 ''c1'' ''r1'')) 1 0
        (get_report_download sign_all one_report ''c1'' ''r1'')) (Issued 0))
     = Some (Inl TypeError)"
proof -
  have r: "kv_get (kv one_report) (''report:'' @ ''c1'' @ '':'' @ ''r1'')
             = Some [(''id'', JStr ''r1''), (''companyId'', JStr ''c1''),
                     (''filePath'', JStr ''c1/r1.pdf'')]"
    by (simp add: one_report_def kv_get_def)
  have s: "sign_all ''make-78971119-reports''
             (prop_of [(''id'', JStr ''r1''), (''companyId'', JStr ''c1''),
                       (''filePath'', JStr ''c1/r1.pdf'')] ''filePath'') 3600
           = Some (''https://blobs/make-78971119-reports/c1/r1.pdf?expires='' @ show_nat 3600)"
    by (simp add: sign_all_def prop_of_def)
  show ?thesis
    by (rule getDownloadUrl_rejects [where createSignedUrl = sign_all, OF r s download_first,
          THEN conjunct2, THEN conjunct2])
qed

section \<open>Deleting a company\<close>

lemma kv_del_subset: "set (kv_del st k) \<subseteq> set st"
  by (auto simp: kv_del_def)

lemma kv_del_gone: "e \<in> set (kv_del st k) \<Longrightarrow> fst e \<noteq> k"
  by (simp add: kv_del_def)

lemma kv_get_del: "kv_get (kv_del st k) k = None"
  by (auto simp: kv_get_def kv_del_def map_of_eq_None_iff)

lemma deleteComments_subset: "set (deleteComments st pre cs) \<subseteq> set st"
proof (induction cs arbitrary: st)
  case Nil
  show ?case by (simp add: deleteComments_def)
next
  case (Cons c cs)
  have "set (deleteComments (kv_del st (pre @ id_of c)) pre cs) \<subseteq> set (kv_del st (pre @ id_of c))"
    by (rule Cons.IH)
  then have "set (deleteComments (kv_del st (pre @ id_of c)) pre cs) \<subseteq> set st"
    using kv_del_subset by blast
  then show ?case by (simp add: deleteComments_def)
qed

lemma deleteComments_gone:
  "c \<in> set cs \<Longrightarrow> e \<in> set (deleteComments st pre cs) \<Longrightarrow> fst e \<noteq> pre @ id_of c"
proof (induction cs arbitrary: st)
  case Nil
  then show ?case by simp
next
  case (Cons d cs)
  have u: "deleteComments st pre (d # cs) = deleteComments (kv_del st (pre @ id_of d)) pre cs"
    by (simp add: deleteComments_def)
  have e: "e \<in> set (deleteComments (kv_del st (pre @ id_of d)) pre cs)"
    using Cons.prems(2) unfolding u .
  show ?case
  proof (cases "c \<in> set cs")
    case True
    then show ?thesis using Cons.IH e by blast
  next
    case False
    then have "c = d" using Cons.prems(1) by simp
    moreover have "e \<in> set (kv_del st (pre @ id_of d))"
      using e deleteComments_subset by blast
    ultimately show ?thesis using kv_del_gone by blast
  qed
qed

lemma getByPrefix_empty_iff:
  "kv_getByPrefix st pre = [] \<longleftrightarrow> (\<forall>e \<in> set st. \<not> startsWith (fst e) pre)"
  by (simp add: kv_getByPrefix_def filter_empty_conv)

lemma getByPrefix_mem:
  "e \<in> set st \<Longrightarrow> startsWith (fst e) pre \<Longrightarrow> snd e \<in> set (kv_getByPrefix st pre)"
  by (auto simp: kv_getByPrefix_def)

lemma deleteComments_clears:
  assumes "keyed_under st pre"
  shows "kv_getByPrefix (deleteComments st pre (kv_getByPrefix st pre)) pre = []"
  unfolding getByPrefix_empty_iff
proof (intro ballI notI)
  fix e assume e: "e \<in> set (deleteComments st pre (kv_getByPrefix st pre))"
    and p: "startsWith (fst e) pre"
  have m: "e \<in> set st" using e deleteComments_subset by blast
  then have k: "fst e = pre @ id_of (snd e)" using assms p by (simp add: keyed_under_def)
  have "snd e \<in> set (kv_getByPrefix st pre)" using m p by (rule getByPrefix_mem)
  then have "fst e \<noteq> pre @ id_of (snd e)" using e by (rule deleteComments_gone)
  then show False using k by simp
qed

lemma keyed_under_subset: "set st' \<subseteq> set st \<Longrightarrow> keyed_under st pre \<Longrightarrow> keyed_under st' pre"
  by (auto simp: keyed_under_def)

lemma getByPrefix_empty_subset:
  "set st' \<subseteq> set st \<Longrightarrow> kv_getByPrefix st pre = [] \<Longrightarrow> kv_getByPrefix st' pre = []"
  unfolding getByPrefix_empty_iff by blast

lemma storage_remove_kv: "kv (storage_remove fails sv bucket path) = kv sv"
  by (simp add: storage_remove_def)

lemma storage_remove_subset: "storage (storage_remove fails sv bucket path) \<subseteq> storage sv"
  by (auto simp: storage_remove_def)

lemma storage_remove_gone:
  "\<not> fails bucket path \<Longrightarrow> (bucket, path) \<notin> storage (storage_remove fails sv bucket path)"
  by (simp add: storage_remove_def)

lemma deleteReport_kv:
  "kv (deleteReport fails ident r sv) =
     kv_del (deleteComments (kv sv) (''comment:'' @ ident @ '':'' @ id_of r @ '':'')
               (kv_getByPrefix (kv sv) (''comment:'' @ ident @ '':'' @ id_of r @ '':'')))
       (''report:'' @ ident @ '':'' @ id_of r)"
  by (simp add: deleteReport_def Let_def storage_remove_kv)

lemma deleteReport_storage:
  "storage (deleteReport fails ident r sv) =
     (if truthy (prop_of r ''filePath'')
      then storage (storage_remove fails sv ''make-78971119-reports''
                      (js_to_string (prop_of r ''filePath'')))
      else storage sv)"
  by (simp add: deleteReport_def Let_def)

lemma deleteReport_subset: "set (kv (deleteReport fails ident r sv)) \<subseteq> set (kv sv)"
  unfolding deleteReport_kv using kv_del_subset deleteComments_subset by blast

lemma deleteReport_storage_subset: "storage (deleteReport fails ident r sv) \<subseteq> storage sv"
  unfolding deleteReport_storage using storage_remove_subset by auto

lemma deleteReport_gone:
  "e \<in> set (kv (deleteReport fails ident r sv)) \<Longrightarrow> fst e \<noteq> ''report:'' @ ident @ '':'' @ id_of r"
  unfolding deleteReport_kv by (rule kv_del_gone)

lemma deleteReport_comments:
  assumes "keyed_under (kv sv) (''comment:'' @ ident @ '':'' @ id_of r @ '':'')"
  shows "kv_getByPrefix (kv (deleteReport fails ident r sv))
           (''comment:'' @ ident @ '':'' @ id_of r @ '':'') = []"
  unfolding deleteReport_kv
  by (rule getByPrefix_empty_subset [OF kv_del_subset deleteComments_clears [OF assms]])

lemma deleteReport_blob:
  assumes "truthy (prop_of r ''filePath'')"
      and "\<not> fails ''make-78971119-reports'' (js_to_string (prop_of r ''filePath''))"
  shows "(''make-78971119-reports'', js_to_string (prop_of r ''filePath''))
           \<notin> storage (deleteReport fails ident r sv)"
  unfolding deleteReport_storage using assms storage_remove_gone by simp

lemma deleteReports_subset: "set (kv (deleteReports fails ident rs sv)) \<subseteq> set (kv sv)"
proof (induction rs arbitrary: sv)
  case Nil
  show ?case by simp
next
  case (Cons r rs)
  have "set (kv (deleteReports fails ident rs (deleteReport fails ident r sv)))
          \<subseteq> set (kv (deleteReport fails ident r sv))"
    by (rule Cons.IH)
  then show ?case using deleteReport_subset by fastforce
qed

lemma deleteReports_storage_subset: "storage (deleteReports fails ident rs sv) \<subseteq> storage sv"
proof (induction rs arbitrary: sv)
  case Nil
  show ?case by simp
next
  case (Cons r rs)
  have "storage (deleteReports fails ident rs (deleteReport fails ident r sv))
          \<subseteq> storage (deleteReport fails ident r sv)"
    by (rule Cons.IH)
  then show ?case using deleteReport_storage_subset by fastforce
qed

lemma deleteReports_gone:
  "r \<in> set rs \<Longrightarrow> e \<in> set (kv (deleteReports fails ident rs sv)) \<Longrightarrow>
     fst e \<noteq> ''report:'' @ ident @ '':'' @ id_of r"
proof (induction rs arbitrary: sv)
  case Nil
  then show ?case by simp
next
  case (Cons q rs)
  have e: "e \<in> set (kv (deleteReports fails ident rs (deleteReport fails ident q sv)))"
    using Cons.prems(2) by simp
  show ?case
  proof (cases "r \<in> set rs")
    case True
    then show ?thesis using Cons.IH e by blast
  next
    case False
    then have "r = q" using Cons.prems(1) by simp
    moreover have "e \<in> set (kv (deleteReport fails ident q sv))"
      using e deleteReports_subset by blast
    ultimately show ?thesis using deleteReport_gone by blast
  qed
qed

lemma deleteReports_comments:
  "r \<in> set rs \<Longrightarrow>
   \<forall>q \<in> set rs. keyed_under (kv sv) (''comment:'' @ ident @ '':'' @ id_of q @ '':'') \<Longrightarrow>
   kv_getByPrefix (kv (deleteReports fails ident rs sv))
     (''comment:'' @ ident @ '':'' @ id_of r @ '':'') = []"
proof (induction rs arbitrary: sv)
  case Nil
  then show ?case by simp
next
  case (Cons q rs)
  let ?sv = "deleteReport fails ident q sv"
  have keep: "\<forall>q \<in> set rs. keyed_under (kv ?sv) (''comment:'' @ ident @ '':'' @ id_of q @ '':'')"
    using Cons.prems(2) keyed_under_subset [OF deleteReport_subset] by simp
  show ?case
  proof (cases "r \<in> set rs")
    case True
    then show ?thesis using Cons.IH [OF True keep] by simp
  next
    case False
    then have rq: "r = q" using Cons.prems(1) by simp
    have "keyed_under (kv sv) (''comment:'' @ ident @ '':'' @ id_of q @ '':'')"
      using Cons.prems(2) by simp
    then have "kv_getByPrefix (kv ?sv) (''comment:'' @ ident @ '':'' @ id_of q @ '':'') = []"
      by (rule deleteReport_comments)
    then have "kv_getByPrefix (kv (deleteReports fails ident rs ?sv))
                 (''comment:'' @ ident @ '':'' @ id_of q @ '':'') = []"
      by (rule getByPrefix_empty_subset [OF deleteReports_subset])
    then show ?thesis by (simp add: rq)
  qed
qed

lemma deleteReports_blob:
  "r \<in> set rs \<Longrightarrow> truthy (prop_of r ''filePath'') \<Longrightarrow>
   \<not> fails ''make-78971119-reports'' (js_to_string (prop_of r ''filePath'')) \<Longrightarrow>
   (''make-78971119-reports'', js_to_string (prop_of r ''filePath''))
      \<notin> storage (deleteReports fails ident rs sv)"
proof (induction rs arbitrary: sv)
  case Nil
  then show ?case by simp
next
  case (Cons q rs)
  show ?case
  proof (cases "r \<in> set rs")
    case True
    then show ?thesis using Cons.IH Cons.prems(2,3) by simp
  next
    case False
    then have rq: "r = q" using Cons.prems(1) by simp
    have "(''make-78971119-reports'', js_to_string (prop_of q ''filePath''))
            \<notin> storage (deleteReport fails ident q sv)"
      using Cons.prems(2,3) unfolding rq by (rule deleteReport_blob)
    then have "(''make-78971119-reports'', js_to_string (prop_of q ''filePath''))
            \<notin> storage (deleteReports fails ident rs (deleteReport fails ident q sv))"
      using deleteReports_storage_subset by blast
    then show ?thesis by (simp add: rq)
  qed
qed


lemma deleteIcon_kv: "kv (deleteIcon fails sv company) = kv sv"
  by (simp add: deleteIcon_def storage_remove_kv split: json.splits)

lemma delete_company_found:
  assumes "kv_get (kv sv) (''company:'' @ ident) = Some company"
  shows "fst (delete_company fails sv ident) = c_json [(''success'', JBool True)] 200"
    and "kv (snd (delete_company fails sv ident)) =
           kv_del (kv (deleteReports fails ident
                         (kv_getByPrefix (kv sv) (''report:'' @ ident @ '':''))
                         (deleteIcon fails sv company)))
             (''company:'' @ ident)"
    and "storage (snd (delete_company fails sv ident)) =
           storage (deleteReports fails ident
                      (kv_getByPrefix (kv sv) (''report:'' @ ident @ '':''))
                      (deleteIcon fails sv company))"
  using assms by (simp_all add: delete_company_def Let_def deleteIcon_kv)

text \<open>
  Claim C9, as amended. For a company in a store that is keyed under the prefix of its
  reports and under the prefix of the comments of each of them: the DELETE succeeds; the
  company record, every report record under the company and every comment record under
  those reports are gone; the blob of each report is gone when its removal does not fail;
  listing the reports of the company returns the empty list and reading the company
  returns not found.
\<close>

theorem delete_company_cascade:
  assumes "kv_get (kv sv) (''company:'' @ ident) = Some company"
      and "keyed_under (kv sv) (''report:'' @ ident @ '':'')"
      and "\<forall>r \<in> set (kv_getByPrefix (kv sv) (''report:'' @ ident @ '':'')).
             keyed_under (kv sv) (''comment:'' @ ident @ '':'' @ id_of r @ '':'')"
  shows "fst (delete_company fails sv ident) = c_json [(''success'', JBool True)] 200
       \<and> kv_get (kv (snd (delete_company fails sv ident))) (''company:'' @ ident) = None
       \<and> kv_getByPrefix (kv (snd (delete_company fails sv ident))) (''report:'' @ ident @ '':'') = []
       \<and> (\<forall>r \<in> set (kv_getByPrefix (kv sv) (''report:'' @ ident @ '':'')).
             kv_getByPrefix (kv (snd (delete_company fails sv ident)))
               (''comment:'' @ ident @ '':'' @ id_of r @ '':'') = [])
       \<and> (\<forall>r \<in> set (kv_getByPrefix (kv sv) (''report:'' @ ident @ '':'')).
             truthy (prop_of r ''filePath'')
             \<and> \<not> fails ''make-78971119-reports'' (js_to_string (prop_of r ''filePath'')) \<longrightarrow>
             (''make-78971119-reports'', js_to_string (prop_of r ''filePath''))
                \<notin> storage (snd (delete_company fails sv ident)))
       \<and> get_reports getTime (snd (delete_company fails sv ident)) ident
            = c_json [(''success'', JBool True), (''data'', JArr [])] 200
       \<and> get_company (snd (delete_company fails sv ident)) ident
            = failure ''Company not found'' 404"
proof -
  let ?rpre = "''report:'' @ ident @ '':''"
  let ?rs = "kv_getByPrefix (kv sv) ?rpre"
  let ?sv1 = "deleteIcon fails sv company"
  let ?sv2 = "deleteReports fails ident ?rs ?sv1"
  let ?sv3 = "snd (delete_company fails sv ident)"
  note f = delete_company_found [OF assms(1), of fails]
  have sub2: "set (kv ?sv2) \<subseteq> set (kv sv)"
    using deleteReports_subset [of fails ident ?rs ?sv1] by (simp add: deleteIcon_kv)
  have sub3: "set (kv ?sv3) \<subseteq> set (kv ?sv2)"
    unfolding f(2) by (rule kv_del_subset)
  have a: "fst (delete_company fails sv ident) = c_json [(''success'', JBool True)] 200"
    by (rule f(1))
  have b: "kv_get (kv ?sv3) (''company:'' @ ident) = None"
    unfolding f(2) by (rule kv_get_del)
  have c2: "kv_getByPrefix (kv ?sv2) ?rpre = []"
    unfolding getByPrefix_empty_iff
  proof (intro ballI notI)
    fix e assume e: "e \<in> set (kv ?sv2)" and p: "startsWith (fst e) ?rpre"
    have m: "e \<in> set (kv sv)" using e sub2 by blast
    then have k: "fst e = ?rpre @ id_of (snd e)"
      using assms(2) p by (simp add: keyed_under_def)
    have "snd e \<in> set ?rs" using m p by (rule getByPrefix_mem)
    then have "fst e \<noteq> ''report:'' @ ident @ '':'' @ id_of (snd e)"
      using e by (rule deleteReports_gone)
    then show False using k by simp
  qed
  have c: "kv_getByPrefix (kv ?sv3) ?rpre = []"
    by (rule getByPrefix_empty_subset [OF sub3 c2])
  have d: "\<forall>r \<in> set ?rs. kv_getByPrefix (kv ?sv3) (''comment:'' @ ident @ '':'' @ id_of r @ '':'') = []"
  proof
    fix r assume r: "r \<in> set ?rs"
    have "\<forall>q \<in> set ?rs. keyed_under (kv ?sv1) (''comment:'' @ ident @ '':'' @ id_of q @ '':'')"
      using assms(3) by (simp add: deleteIcon_kv)
    then have "kv_getByPrefix (kv ?sv2) (''comment:'' @ ident @ '':'' @ id_of r @ '':'') = []"
      using r deleteReports_comments by blast
    then show "kv_getByPrefix (kv ?sv3) (''comment:'' @ ident @ '':'' @ id_of r @ '':'') = []"
      by (rule getByPrefix_empty_subset [OF sub3])
  qed
  have e: "\<forall>r \<in> set ?rs.
             truthy (prop_of r ''filePath'')
             \<and> \<not> fails ''make-78971119-reports'' (js_to_string (prop_of r ''filePath'')) \<longrightarrow>
             (''make-78971119-reports'', js_to_string (prop_of r ''filePath'')) \<notin> storage ?sv3"
    unfolding f(3) using deleteReports_blob by blast
  have g: "get_reports getTime ?sv3 ident = c_json [(''success'', JBool True), (''data'', JArr [])] 200"
    unfolding get_reports_def Let_def c by (simp add: sort_js_def)
  have h: "get_company ?sv3 ident = failure ''Company not found'' 404"
    unfolding get_company_def b by simp
  show ?thesis by (intro conjI) (rule a b c d e g h)+
qed

lemma two_reports_company:
  "kv_get (kv two_reports) (''company:'' @ ''c1'') = Some [(''id'', JStr ''c1''), (''name'', JStr ''Acme'')]"
  by (simp add: two_reports_def kv_get_def)

lemma two_reports_keyed: "keyed_under (kv two_reports) (''report:'' @ ''c1'' @ '':'')"
  by (simp add: keyed_under_def two_reports_def id_of_def prop_of_def)

lemma two_reports_list:
  "kv_getByPrefix (kv two_reports) (''report:'' @ ''c1'' @ '':'')
     = [[(''id'', JStr ''r1''), (''filePath'', JStr ''c1/r1.pdf'')],
        [(''id'', JStr ''r2''), (''filePath'', JStr ''c1/r2.pdf'')]]"
  by (simp add: kv_getByPrefix_def two_reports_def)

lemma two_reports_comments_keyed:
  "\<forall>r \<in> set (kv_getByPrefix (kv two_reports) (''report:'' @ ''c1'' @ '':'')).
     keyed_under (kv two_reports) (''comment:'' @ ''c1'' @ '':'' @ id_of r @ '':'')"
  unfolding two_reports_list
  by (simp add: keyed_under_def two_reports_def id_of_def prop_of_def)

theorem delete_company_cascade_witness:
  "kv_getByPrefix (kv (snd (delete_company never_fails two_reports ''c1''))) ''report:c1:'' = []
   \<and> kv_getByPrefix (kv (snd (delete_company never_fails two_reports ''c1''))) ''comment:c1:r1:'' = []
   \<and> kv_getByPrefix (kv (snd (delete_company never_fails two_reports ''c1''))) ''comment:c1:r2:'' = []
   \<and> (''make-78971119-reports'', ''c1/r1.pdf'')
        \<notin> storage (snd (delete_company never_fails two_reports ''c1''))
   \<and> (''make-78971119-reports'', ''c1/r2.pdf'')
        \<notin> storage (snd (delete_company never_fails two_reports ''c1''))
   \<and> get_company (snd (delete_company never_fails two_reports ''c1'')) ''c1''
        = failure ''Company not found'' 404"
proof -
  note T = delete_company_cascade
             [OF two_reports_company two_reports_keyed two_reports_comments_keyed, of never_fails]
  note c = T [THEN conjunct2, THEN conjunct2, THEN conjunct1]
  note d = T [THEN conjunct2, THEN conjunct2, THEN conjunct2, THEN conjunct1, unfolded two_reports_list]
  note e = T [THEN conjunct2, THEN conjunct2, THEN conjunct2, THEN conjunct2, THEN conjunct1,
              unfolded two_reports_list]
  note h = T [THEN conjunct2, THEN conjunct2, THEN conjunct2, THEN conjunct2, THEN conjunct2,
              THEN conjunct2]
  show ?thesis
    using c d e h by (simp add: id_of_def prop_of_def never_fails_def)
qed

text \<open>
  Claim C9 as stated fails when the blob store fails: the DELETE succeeds, the records
  are gone, and the blob of the report is still stored.
\<close>

theorem delete_leaves_blob:
  "fst (delete_company always_fails one_report ''c1'') = c_json [(''success'', JBool True)] 200
   \<and> kv (snd (delete_company always_fails one_report ''c1'')) = []
   \<and> (''make-78971119-reports'', ''c1/r1.pdf'')
        \<in> storage (snd (delete_company always_fails one_report ''c1''))"
  by (simp add: delete_company_def deleteIcon_def deleteReport_def deleteComments_def
        kv_get_def kv_del_def kv_getByPrefix_def storage_remove_def one_report_def
        always_fails_def id_of_def prop_of_def Let_def)

section \<open>Schedules that leave a request in flight\<close>

lemma makeRequest_cases:
  obtains (hit) v where "makeRequest st now url options cacheKey = (CacheHit v, st)"
  | (joined) q where "makeRequest st now url options cacheKey = (Joined q, st)"
  | (issued) "pendingRequests st (requestKey url options) = None"
      "makeRequest st now url options cacheKey =
         (Issued (length (promises st)),
          st\<lparr>promises := promises st @ [Fetching url options cacheKey],
             pendingRequests := (pendingRequests st)(requestKey url options \<mapsto> length (promises st)),
             fetches := fetches st @ [(url, options)]\<rparr>)"
proof (cases "cachedGet cacheKey options \<and> truthy (getCachedData st now (the cacheKey))")
  case True
  then show ?thesis using hit by (simp add: makeRequest_def)
next
  case False
  show ?thesis
  proof (cases "pendingRequests st (requestKey url options)")
    case None
    show ?thesis by (rule issued [OF None makeRequest_fresh [OF False None]])
  next
    case (Some q)
    show ?thesis by (rule joined [OF makeRequest_Joined [OF False Some]])
  qed
qed

lemma pending_step:
  assumes "pendingRequests st k = Some p" "\<not> completes st k e"
  shows "pendingRequests (step st e) k = Some p"
proof (cases e)
  case (Call url options cacheKey now)
  show ?thesis
  proof (cases rule: makeRequest_cases [of st now url options cacheKey])
    case (hit v)
    then show ?thesis using assms(1) Call by simp
  next
    case (joined q)
    then show ?thesis using assms(1) Call by simp
  next
    case issued
    have "requestKey url options \<noteq> k" using issued(1) assms(1) by auto
    then show ?thesis using assms(1) Call issued(2) by simp
  qed
next
  case (Clear pattern)
  then show ?thesis using assms(1) by (simp add: clearCachePattern_def)
next
  case (Arrive q r)
  show ?thesis
  proof (cases "q < length (promises st)")
    case False
    then show ?thesis using assms(1) Arrive by (simp add: fetchSettles_def)
  next
    case True
    then have "key_of (promises st ! q) \<noteq> Some k" using assms(2) Arrive by simp
    then show ?thesis using assms(1) Arrive True
      by (cases "promises st ! q"; cases r) (auto simp: fetchSettles_def)
  qed
next
  case (Finish q now)
  show ?thesis
  proof (cases "q < length (promises st)")
    case False
    then show ?thesis using assms(1) Finish by (simp add: bodyArrives_def)
  next
    case True
    then have "key_of (promises st ! q) \<noteq> Some k" using assms(2) Finish by simp
    then show ?thesis using assms(1) Finish True
      by (cases "promises st ! q") (auto simp: bodyArrives_def setCachedData_def split: sum.splits)
  qed
qed

lemma promise_step:
  assumes "p < length (promises st)" "promises st ! p = Fetching url options cacheKey"
      and "\<not> completes st (requestKey url options) e"
  shows "p < length (promises (step st e)) \<and> promises (step st e) ! p = Fetching url options cacheKey"
proof (cases e)
  case (Call url2 options2 cacheKey2 now)
  show ?thesis
  proof (cases rule: makeRequest_cases [of st now url2 options2 cacheKey2])
    case (hit v)
    then show ?thesis using assms(1,2) Call by simp
  next
    case (joined q)
    then show ?thesis using assms(1,2) Call by simp
  next
    case issued
    then show ?thesis using assms(1,2) Call by (simp add: nth_append)
  qed
next
  case (Clear pattern)
  then show ?thesis using assms(1,2) by (simp add: clearCachePattern_def)
next
  case (Arrive q r)
  have "q \<noteq> p" using assms Arrive by auto
  then show ?thesis using assms(1,2) Arrive
    by (cases "promises st ! q"; cases r) (auto simp: fetchSettles_def)
next
  case (Finish q now)
  have "q \<noteq> p" using assms Finish by auto
  then show ?thesis using assms(1,2) Finish
    by (cases "promises st ! q") (auto simp: bodyArrives_def setCachedData_def split: sum.splits)
qed

lemma fetches_step:
  assumes "pendingRequests st k = Some p"
  shows "key_fetches k (step st e) = key_fetches k st"
proof (cases e)
  case (Call url options cacheKey now)
  show ?thesis
  proof (cases rule: makeRequest_cases [of st now url options cacheKey])
    case (hit v)
    then show ?thesis using Call by simp
  next
    case (joined q)
    then show ?thesis using Call by simp
  next
    case issued
    have "requestKey url options \<noteq> k" using issued(1) assms by auto
    then show ?thesis using Call issued(2) by (simp add: key_fetches_def)
  qed
next
  case (Clear pattern)
  then show ?thesis by (simp add: clearCachePattern_def key_fetches_def)
next
  case (Arrive q r)
  then show ?thesis
    by (cases "promises st ! q"; cases r) (auto simp: fetchSettles_def key_fetches_def)
next
  case (Finish q now)
  then show ?thesis
    by (cases "promises st ! q")
       (auto simp: bodyArrives_def setCachedData_def key_fetches_def split: sum.splits)
qed

lemma undisturbed_run:
  assumes "undisturbed (requestKey url options) st es"
      and "pendingRequests st (requestKey url options) = Some p"
      and "p < length (promises st)" "promises st ! p = Fetching url options cacheKey"
  shows "pendingRequests (run st es) (requestKey url options) = Some p"
    and "p < length (promises (run st es))"
    and "promises (run st es) ! p = Fetching url options cacheKey"
    and "key_fetches (requestKey url options) (run st es) = key_fetches (requestKey url options) st"
proof -
  have "pendingRequests (run st es) (requestKey url options) = Some p
      \<and> p < length (promises (run st es))
      \<and> promises (run st es) ! p = Fetching url options cacheKey
      \<and> key_fetches (requestKey url options) (run st es) = key_fetches (requestKey url options) st"
    using assms
  proof (induction es arbitrary: st)
    case Nil
    then show ?case by (simp add: run_def)
  next
    case (Cons e es)
    have q: "\<not> completes st (requestKey url options) e"
      and u: "undisturbed (requestKey url options) (step st e) es"
      using Cons.prems(1) by simp_all
    have a: "pendingRequests (step st e) (requestKey url options) = Some p"
      by (rule pending_step [OF Cons.prems(2) q])
    note b = promise_step [OF Cons.prems(3,4) q]
    have c: "key_fetches (requestKey url options) (step st e) = key_fetches (requestKey url options) st"
      by (rule fetches_step [OF Cons.prems(2)])
    note ih = Cons.IH [OF u a b [THEN conjunct1] b [THEN conjunct2]]
    have r: "run st (e # es) = run (step st e) es" by (simp add: run_def)
    show ?case unfolding r using ih c by simp
  qed
  then show "pendingRequests (run st es) (requestKey url options) = Some p"
    and "p < length (promises (run st es))"
    and "promises (run st es) ! p = Fetching url options cacheKey"
    and "key_fetches (requestKey url options) (run st es) = key_fetches (requestKey url options) st"
    by simp_all
qed

lemma cache_step:
  assumes "\<not> overwrites st key e"
  shows "cache (step st e) key = cache st key"
proof (cases e)
  case (Call url options cacheKey now)
  then show ?thesis by (simp add: cache_makeRequest)
next
  case (Clear pattern)
  then show ?thesis using assms by (simp add: clearCachePattern_def)
next
  case (Arrive q r)
  then show ?thesis
    by (cases "promises st ! q"; cases r) (auto simp: fetchSettles_def)
next
  case (Finish q now)
  show ?thesis
  proof (cases "q < length (promises st)")
    case False
    then show ?thesis using Finish by (simp add: bodyArrives_def)
  next
    case True
    then have n: "stores_under (promises st ! q) \<noteq> Some key" using assms Finish by simp
    show ?thesis
    proof (cases "promises st ! q")
      case (Fetching url options cacheKey)
      then show ?thesis using Finish True by (simp add: bodyArrives_def)
    next
      case (Settled res)
      then show ?thesis using Finish True by (simp add: bodyArrives_def)
    next
      case (Reading resp url options cacheKey)
      show ?thesis
      proof (cases "cachedGet cacheKey options")
        case False
        then show ?thesis using Finish bodyArrives_Reading(5) [OF True Reading] by simp
      next
        case c: True
        then have k: "cacheKey \<noteq> Some key" using n Reading by simp
        have s: "cacheKey \<noteq> None" using c by (cases cacheKey) (simp_all add: cachedGet_def)
        have "the cacheKey \<noteq> key" using k s by auto
        then show ?thesis using Finish True Reading c
          by (cases "readResponse resp") (simp_all add: bodyArrives_def setCachedData_def)
      qed
    qed
  qed
qed

lemma kept_run: "kept key st es \<Longrightarrow> cache (run st es) key = cache st key"
proof (induction es arbitrary: st)
  case Nil
  show ?case by (simp add: run_def)
next
  case (Cons e es)
  have "cache (run (step st e) es) key = cache (step st e) key"
    using Cons.IH Cons.prems by simp
  also have "\<dots> = cache st key" using cache_step Cons.prems by simp
  finally show ?case by (simp add: run_def)
qed

lemma key_fetches_Issued:
  assumes "makeRequest st now url options cacheKey = (Issued p, st1)"
  shows "key_fetches (requestKey url options) st1
           = key_fetches (requestKey url options) st @ [(url, options)]"
  using issued_state(1) [OF assms] by (simp add: key_fetches_def)

lemma in_flight_run:
  assumes "makeRequest st now url options cacheKey = (Issued p, st1)"
      and "undisturbed (requestKey url options) st1 es"
  shows "pendingRequests (run st1 es) (requestKey url options) = Some p"
    and "p < length (promises (run st1 es))"
    and "promises (run st1 es) ! p = Fetching url options cacheKey"
    and "key_fetches (requestKey url options) (run st1 es)
           = key_fetches (requestKey url options) st @ [(url, options)]"
proof -
  note i = makeRequest_Issued [OF assms(1)]
  have a: "pendingRequests st1 (requestKey url options) = Some p"
    by (rule issued_state(2) [OF assms(1)])
  have b: "p < length (promises st1)" "promises st1 ! p = Fetching url options cacheKey"
    using i(1,2) by simp_all
  note u = undisturbed_run [OF assms(2) a b]
  show "pendingRequests (run st1 es) (requestKey url options) = Some p" by (rule u(1))
  show "p < length (promises (run st1 es))" by (rule u(2))
  show "promises (run st1 es) ! p = Fetching url options cacheKey" by (rule u(3))
  show "key_fetches (requestKey url options) (run st1 es)
           = key_fetches (requestKey url options) st @ [(url, options)]"
    unfolding u(4) by (rule key_fetches_Issued [OF assms(1)])
qed


lemma other_traffic_undisturbed:
  assumes "pendingRequests st (requestKey ''v'' plain_get) = None"
      and "length (promises st) = 1"
      and "k \<noteq> requestKey ''v'' plain_get"
  shows "undisturbed k st other_traffic"
proof -
  have c: "cachedGet (Some ''k'') plain_get" by (simp add: cachedGet_def plain_get_def)
  show ?thesis
  proof (cases "truthy (getCachedData st 2 ''k'')")
    case True
    have m: "makeRequest st 2 ''v'' plain_get (Some ''k'') = (CacheHit (getCachedData st 2 ''k''), st)"
      using makeRequest_CacheHit [OF c, of st 2 "''v''"] True by simp
    show ?thesis
      using assms(2)
      by (simp add: other_traffic_def m fetchSettles_def bodyArrives_def clearCachePattern_def)
  next
    case False
    then have n: "\<not> (cachedGet (Some ''k'') plain_get \<and> truthy (getCachedData st 2 (the (Some ''k''))))"
      by simp
    note m = makeRequest_fresh [OF n assms(1)]
    show ?thesis
      using assms(2,3)
      by (simp add: other_traffic_def m fetchSettles_def bodyArrives_def clearCachePattern_def
            nth_append setCachedData_def split: sum.splits)
  qed
qed




section \<open>The cache entry of a completed read\<close>

lemma get_companies_truthy:
  "\<exists>xs. readResponse (get_companies getTime sv) = Inr (JArr xs) \<and> truthy (JArr xs)"
  by (simp add: readResponse_def get_companies_def c_json_def ok_def prop_of_def Let_def)

lemma get_reports_truthy:
  "\<exists>xs. readResponse (get_reports getTime sv companyId) = Inr (JArr xs) \<and> truthy (JArr xs)"
  by (simp add: readResponse_def get_reports_def c_json_def ok_def prop_of_def Let_def)

lemma get_company_truthy:
  "readResponse (get_company sv ident) = Inr d \<Longrightarrow> truthy d"
  by (auto simp: readResponse_def get_company_def failure_def c_json_def ok_def prop_of_def
           split: option.splits)

lemma getCachedData_entry:
  assumes "cache s key = Some \<lparr>data = d, timestamp = t1\<rparr>"
  shows "getCachedData s t2 key = (if t2 - t1 < CACHE_DURATION then d else JNull)"
  using assms by (simp add: getCachedData_def)

lemma other_traffic_kept:
  assumes "key \<noteq> ''k''" "\<not> js_includes key ''reports_7''" "length (promises st) = 1"
  shows "kept key st other_traffic"
proof (cases rule: makeRequest_cases [of st 2 "''v''" plain_get "Some ''k''"])
  case (hit v)
  show ?thesis
    using assms(2,3) by (simp add: other_traffic_def hit fetchSettles_def bodyArrives_def)
next
  case (joined q)
  show ?thesis
    using assms(2,3) by (simp add: other_traffic_def joined fetchSettles_def bodyArrives_def)
next
  case issued
  show ?thesis
    using assms by (simp add: other_traffic_def issued(2) fetchSettles_def nth_append)
qed

lemma entry_step:
  assumes "cache st key \<noteq> None" "\<not> clears key e"
  shows "cache (step st e) key \<noteq> None"
proof (cases e)
  case (Call url options cacheKey now)
  then show ?thesis using assms(1) by (simp add: cache_makeRequest)
next
  case (Clear pattern)
  then show ?thesis using assms by (simp add: clearCachePattern_def)
next
  case (Arrive q r)
  then show ?thesis using assms(1)
    by (cases "promises st ! q"; cases r) (auto simp: fetchSettles_def)
next
  case (Finish q now)
  then show ?thesis using assms(1)
    by (cases "promises st ! q") (auto simp: bodyArrives_def setCachedData_def split: sum.splits)
qed

lemma entry_run:
  "\<forall>e\<in>set es. \<not> clears key e \<Longrightarrow> cache st key \<noteq> None \<Longrightarrow> cache (run st es) key \<noteq> None"
proof (induction es arbitrary: st)
  case Nil
  then show ?case by (simp add: run_def)
next
  case (Cons e es)
  have a: "cache (step st e) key \<noteq> None"
    by (rule entry_step) (use Cons.prems in simp_all)
  have "cache (run (step st e) es) key \<noteq> None"
    by (rule Cons.IH) (use Cons.prems a in simp_all)
  then show ?case by (simp add: run_def)
qed

text \<open>
  Claim C2, as amended. The response of a cached read (a call with a cache key and no
  method or GET) is being read, it is a success, and its value counts as true, as every
  array and every object does; the handler ends at time \<open>t1\<close> and the call has resolved
  with the value. The client goes on through any schedule in which no
  \<open>clearCachePattern\<close> matches the cache key. Then the cache still has an entry for the
  key: the value of the first call, inserted at \<open>t1\<close>, when no other read with that cache
  key has completed in between, and else the value such a read has inserted since. A
  call with the same parameters at a time less than \<open>CACHE_DURATION\<close>, five minutes,
  after the insertion of the entry returns its value and leaves the client as it is, so
  it sends nothing; and at a later time the lookup is a miss: the call is not answered
  from the cache, it sends a new request when no identical request is in flight, and
  returns the promise of that request when there is one.
\<close>

theorem cached_read_ttl:
  assumes "p < length (promises st)"
      and "promises st ! p = Reading resp url options (Some key)"
      and "cachedGet (Some key) options"
      and "readResponse resp = Inr d"
      and "truthy d"
      and "\<forall>e\<in>set es. \<not> clears key e"
  shows "received (bodyArrives st t1 p) (Issued p) = Some (Inr d)
       \<and> (\<exists>v t'.
             cache (run (bodyArrives st t1 p) es) key = Some \<lparr>data = v, timestamp = t'\<rparr>
           \<and> (kept key (bodyArrives st t1 p) es \<longrightarrow> v = d \<and> t' = t1)
           \<and> (truthy v \<and> t2 - t' < CACHE_DURATION \<longrightarrow>
                makeRequest (run (bodyArrives st t1 p) es) t2 url options (Some key)
                  = (CacheHit v, run (bodyArrives st t1 p) es))
           \<and> (CACHE_DURATION \<le> t2 - t' \<longrightarrow>
                getCachedData (run (bodyArrives st t1 p) es) t2 key = JNull
              \<and> (pendingRequests (run (bodyArrives st t1 p) es) (requestKey url options) = None \<longrightarrow>
                   fst (makeRequest (run (bodyArrives st t1 p) es) t2 url options (Some key))
                     = Issued (length (promises (run (bodyArrives st t1 p) es)))
                 \<and> fetches (snd (makeRequest (run (bodyArrives st t1 p) es) t2 url options (Some key)))
                     = fetches (run (bodyArrives st t1 p) es) @ [(url, options)])
              \<and> (\<forall>q. pendingRequests (run (bodyArrives st t1 p) es) (requestKey url options)
                        = Some q \<longrightarrow>
                   makeRequest (run (bodyArrives st t1 p) es) t2 url options (Some key)
                     = (Joined q, run (bodyArrives st t1 p) es))))
       \<and> CACHE_DURATION = 5 * 60 * 1000"
proof -
  let ?fin = "bodyArrives st t1 p"
  let ?s = "run ?fin es"
  note b = bodyArrives_Reading [OF assms(1,2)]
  have c0: "cache ?fin key = Some \<lparr>data = d, timestamp = t1\<rparr>"
    using b(4) [OF assms(4,3), of t1] by simp
  have ne: "cache ?s key \<noteq> None"
    by (rule entry_run [OF assms(6)]) (simp add: c0)
  then obtain en where en: "cache ?s key = Some en" by blast
  obtain v t' where vt: "en = \<lparr>data = v, timestamp = t'\<rparr>" by (cases en) simp
  have cs: "cache ?s key = Some \<lparr>data = v, timestamp = t'\<rparr>"
    unfolding en vt ..
  note g = getCachedData_entry [OF cs]
  have a1: "received ?fin (Issued p) = Some (Inr d)"
    using assms(1,4) by (simp add: received_def b(1))
  have k: "kept key ?fin es \<longrightarrow> v = d \<and> t' = t1"
  proof (rule impI)
    assume kp: "kept key ?fin es"
    have "cache ?s key = Some \<lparr>data = d, timestamp = t1\<rparr>"
      unfolding kept_run [OF kp] by (rule c0)
    then show "v = d \<and> t' = t1" unfolding cs by simp
  qed
  have a2: "truthy v \<and> t2 - t' < CACHE_DURATION \<longrightarrow>
            makeRequest ?s t2 url options (Some key) = (CacheHit v, ?s)"
  proof (rule impI)
    assume w: "truthy v \<and> t2 - t' < CACHE_DURATION"
    have gd: "getCachedData ?s t2 (the (Some key)) = v" using g [of t2] w by simp
    have tr: "truthy (getCachedData ?s t2 (the (Some key)))"
      unfolding gd by (rule w [THEN conjunct1])
    show "makeRequest ?s t2 url options (Some key) = (CacheHit v, ?s)"
      using makeRequest_CacheHit [OF assms(3) tr, of url] unfolding gd .
  qed
  have a3: "CACHE_DURATION \<le> t2 - t' \<longrightarrow>
            getCachedData ?s t2 key = JNull
          \<and> (pendingRequests ?s (requestKey url options) = None \<longrightarrow>
               fst (makeRequest ?s t2 url options (Some key)) = Issued (length (promises ?s))
             \<and> fetches (snd (makeRequest ?s t2 url options (Some key)))
                 = fetches ?s @ [(url, options)])
          \<and> (\<forall>q. pendingRequests ?s (requestKey url options) = Some q \<longrightarrow>
               makeRequest ?s t2 url options (Some key) = (Joined q, ?s))"
  proof (rule impI)
    assume w: "CACHE_DURATION \<le> t2 - t'"
    have gd: "getCachedData ?s t2 key = JNull" using g [of t2] w by simp
    have m: "\<not> (cachedGet (Some key) options \<and> truthy (getCachedData ?s t2 (the (Some key))))"
      by (simp add: gd)
    have x: "pendingRequests ?s (requestKey url options) = None \<longrightarrow>
               fst (makeRequest ?s t2 url options (Some key)) = Issued (length (promises ?s))
             \<and> fetches (snd (makeRequest ?s t2 url options (Some key)))
                 = fetches ?s @ [(url, options)]"
    proof (rule impI)
      assume e: "pendingRequests ?s (requestKey url options) = None"
      show "fst (makeRequest ?s t2 url options (Some key)) = Issued (length (promises ?s))
             \<and> fetches (snd (makeRequest ?s t2 url options (Some key)))
                 = fetches ?s @ [(url, options)]"
        unfolding makeRequest_fresh [OF m e] by simp
    qed
    have y: "\<forall>q. pendingRequests ?s (requestKey url options) = Some q \<longrightarrow>
               makeRequest ?s t2 url options (Some key) = (Joined q, ?s)"
    proof (intro allI impI)
      fix q
      assume e: "pendingRequests ?s (requestKey url options) = Some q"
      show "makeRequest ?s t2 url options (Some key) = (Joined q, ?s)"
        by (rule makeRequest_Joined [OF m e])
    qed
    show "getCachedData ?s t2 key = JNull
          \<and> (pendingRequests ?s (requestKey url options) = None \<longrightarrow>
               fst (makeRequest ?s t2 url options (Some key)) = Issued (length (promises ?s))
             \<and> fetches (snd (makeRequest ?s t2 url options (Some key)))
                 = fetches ?s @ [(url, options)])
          \<and> (\<forall>q. pendingRequests ?s (requestKey url options) = Some q \<longrightarrow>
               makeRequest ?s t2 url options (Some key) = (Joined q, ?s))"
      by (intro conjI) (rule gd x y)+
  qed
  have a4: "CACHE_DURATION = 5 * 60 * 1000" by (simp add: CACHE_DURATION_def)
  have ex: "\<exists>v t'.
             cache ?s key = Some \<lparr>data = v, timestamp = t'\<rparr>
           \<and> (kept key ?fin es \<longrightarrow> v = d \<and> t' = t1)
           \<and> (truthy v \<and> t2 - t' < CACHE_DURATION \<longrightarrow>
                makeRequest ?s t2 url options (Some key) = (CacheHit v, ?s))
           \<and> (CACHE_DURATION \<le> t2 - t' \<longrightarrow>
                getCachedData ?s t2 key = JNull
              \<and> (pendingRequests ?s (requestKey url options) = None \<longrightarrow>
                   fst (makeRequest ?s t2 url options (Some key)) = Issued (length (promises ?s))
                 \<and> fetches (snd (makeRequest ?s t2 url options (Some key)))
                     = fetches ?s @ [(url, options)])
              \<and> (\<forall>q. pendingRequests ?s (requestKey url options) = Some q \<longrightarrow>
                   makeRequest ?s t2 url options (Some key) = (Joined q, ?s)))"
    by (intro exI conjI) (rule cs k a2 a3)+
  show ?thesis by (intro conjI) (rule a1 ex a4)+
qed

lemma getAll_reading:
  shows "promises (fetchSettles (snd (companyApi_getAll info0 client0 0)) 0 (Responds list_of_two)) ! 0
     = Reading list_of_two (API_BASE_URL info0 @ ''/companies'')
         \<lparr>http_method = None, headers = Some (createAuthHeaders info0), body = None\<rparr>
         (Some (getCacheKey ''companies_getAll'' None))"
    and "length (promises (fetchSettles (snd (companyApi_getAll info0 client0 0)) 0
         (Responds list_of_two))) = 1"
  by (simp_all add: companyApi_getAll_def makeRequest_def fetchSettles_def client0_def
        getCachedData_def cachedGet_def getCacheKey_def Let_def)

lemma readResponse_list_of_two: "readResponse list_of_two = Inr two_companies"
  by (simp add: readResponse_def list_of_two_def two_companies_def c_json_def ok_def prop_of_def)

theorem cached_read_ttl_witness:
  "companyApi_getAll info0 (run warm_client other_traffic) 300000
     = (CacheHit two_companies, run warm_client other_traffic)
   \<and> getCachedData (run warm_client other_traffic) 300001 (getCacheKey ''companies_getAll'' None)
       = JNull"
proof -
  let ?st = "fetchSettles (snd (companyApi_getAll info0 client0 0)) 0 (Responds list_of_two)"
  let ?key = "getCacheKey ''companies_getAll'' None"
  have w: "warm_client = bodyArrives ?st 1 0"
    by (simp add: warm_client_def respond_def)
  have l: "0 < length (promises ?st)" using getAll_reading(2) by simp
  have k: "kept ?key (bodyArrives ?st 1 0) other_traffic"
  proof (rule other_traffic_kept)
    show "?key \<noteq> ''k''" by (simp add: getCacheKey_def)
    show "\<not> js_includes ?key ''reports_7''"
      by (simp add: getCacheKey_def)
    show "length (promises (bodyArrives ?st 1 0)) = 1"
      using bodyArrives_Reading(1) [OF l getAll_reading(1), of 1] getAll_reading(2) by simp
  qed
  have nc: "\<forall>e\<in>set other_traffic. \<not> clears ?key e"
    by (simp add: other_traffic_def getCacheKey_def)
  have tr: "truthy two_companies" by (simp add: two_companies_def)
  note T = cached_read_ttl [OF l getAll_reading(1) cachedGet_getAll readResponse_list_of_two tr nc]
  have h1: "(300000::int) - 1 < CACHE_DURATION" by (simp add: CACHE_DURATION_def)
  have h2: "CACHE_DURATION \<le> (300001::int) - 1" by (simp add: CACHE_DURATION_def)
  from T [of 1 300000, THEN conjunct2, THEN conjunct1] obtain v t' where
    x1: "kept ?key (bodyArrives ?st 1 0) other_traffic \<longrightarrow> v = two_companies \<and> t' = 1"
    and x2: "truthy v \<and> 300000 - t' < CACHE_DURATION \<longrightarrow>
        makeRequest (run (bodyArrives ?st 1 0) other_traffic) 300000
          (API_BASE_URL info0 @ ''/companies'')
          \<lparr>http_method = None, headers = Some (createAuthHeaders info0), body = None\<rparr>
          (Some ?key)
        = (CacheHit v, run (bodyArrives ?st 1 0) other_traffic)"
    by (elim exE conjE)
  have v1: "v = two_companies" "t' = 1" using x1 k by simp_all
  have a: "makeRequest (run (bodyArrives ?st 1 0) other_traffic) 300000
          (API_BASE_URL info0 @ ''/companies'')
          \<lparr>http_method = None, headers = Some (createAuthHeaders info0), body = None\<rparr>
          (Some ?key)
        = (CacheHit two_companies, run (bodyArrives ?st 1 0) other_traffic)"
    using x2 tr h1 unfolding v1 by simp
  from T [of 1 300001, THEN conjunct2, THEN conjunct1] obtain u t'' where
    y1: "kept ?key (bodyArrives ?st 1 0) other_traffic \<longrightarrow> u = two_companies \<and> t'' = 1"
    and y2: "CACHE_DURATION \<le> 300001 - t'' \<longrightarrow>
        getCachedData (run (bodyArrives ?st 1 0) other_traffic) 300001 ?key = JNull"
    by (elim exE conjE) simp
  have u1: "t'' = 1" using y1 k by simp
  have b: "getCachedData (run (bodyArrives ?st 1 0) other_traffic) 300001 ?key = JNull"
    using y2 h2 unfolding u1 by simp
  have a': "companyApi_getAll info0 (run (bodyArrives ?st 1 0) other_traffic) 300000
      = (CacheHit two_companies, run (bodyArrives ?st 1 0) other_traffic)"
    using a by (simp only: companyApi_getAll_def)
  show ?thesis unfolding w by (intro conjI) (rule a' b)+
qed

text \<open>
  Claim C2 as stated fails when a mutation comes in between: \<open>getAll\<close> has completed at
  time 1 and the list is in the cache, so a second \<open>getAll\<close> at time 2 is answered from
  it; but once the deletion of a company has been called at time 2, which clears the
  company entries of the cache at the call, the second \<open>getAll\<close> at time 3, well
  within five minutes, sends a request of its own, the third of the run.
\<close>

theorem cached_list_cleared_by_mutation:
  "received warm_client (Issued 0) = Some (Inr two_companies)
   \<and> fst (companyApi_getAll info0 warm_client 2) = CacheHit two_companies
   \<and> fst (companyApi_getAll info0
        (snd (companyApi_delete info0 warm_client 2 ''2'')) 3) = Issued 2
   \<and> length (fetches (snd (companyApi_getAll info0
        (snd (companyApi_delete info0 warm_client 2 ''2'')) 3))) = 3"
  by (simp add: warm_client_def companyApi_getAll_def companyApi_delete_def makeRequest_def
        respond_def fetchSettles_def bodyArrives_def readResponse_def clearCachePattern_def
        client0_def getCachedData_def setCachedData_def cachedGet_def getCacheKey_def
        list_of_two_def two_companies_def c_json_def ok_def prop_of_def CACHE_DURATION_def
        requestKey_def API_BASE_URL_def info0_def received_def Let_def)

section \<open>Uploads and the request key\<close>

text \<open>
  Claim C10, as amended. The request key is the URL, an underscore and
  \<open>JSON.stringify(options)\<close>, which prints a FormData body as \<open>{}\<close>: two calls to one URL
  that differ only in their FormData bodies have the same key. So when an upload has
  sent its request and the client goes on through any schedule in which no response and
  no failure of a request with that key is handled, a second upload for the same company,
  whatever its file and metadata, returns the first one's promise and sends nothing: the
  only request sent with that key since the first call carries the first upload, and
  the second caller receives what the first receives. The same holds of any two calls of
  \<open>makeRequest\<close> with one URL, method and headers and two FormData bodies, when the second
  is not served from the cache.
\<close>

theorem multipart_uploads_share_key:
  assumes "reportApi_upload i st t1 companyId d1 = (Issued p, st1)"
      and "undisturbed
             (requestKey (API_BASE_URL i @ ''/companies/'' @ companyId @ ''/reports'')
                \<lparr>http_method = Some ''POST'', headers = Some (createFormHeaders i),
                 body = Some (FormDataBody fd)\<rparr>) st1 es"
  shows "requestKey url options = url @ ''_'' @ stringify_options options
       \<and> stringify_body (FormDataBody fd1) = ''{}''
       \<and> requestKey url \<lparr>http_method = m, headers = h, body = Some (FormDataBody fd1)\<rparr>
           = requestKey url \<lparr>http_method = m, headers = h, body = Some (FormDataBody fd2)\<rparr>
       \<and> reportApi_upload i (run st1 es) t2 companyId d2
           = (Joined p, clearCachePattern (run st1 es) (''reports_'' @ companyId))
       \<and> fetches (snd (reportApi_upload i (run st1 es) t2 companyId d2)) = fetches (run st1 es)
       \<and> key_fetches
             (requestKey (API_BASE_URL i @ ''/companies/'' @ companyId @ ''/reports'')
                \<lparr>http_method = Some ''POST'', headers = Some (createFormHeaders i),
                 body = Some (FormDataBody fd)\<rparr>)
             (snd (reportApi_upload i (run st1 es) t2 companyId d2))
           = key_fetches
               (requestKey (API_BASE_URL i @ ''/companies/'' @ companyId @ ''/reports'')
                  \<lparr>http_method = Some ''POST'', headers = Some (createFormHeaders i),
                   body = Some (FormDataBody fd)\<rparr>) st
             @ [(API_BASE_URL i @ ''/companies/'' @ companyId @ ''/reports'',
                 \<lparr>http_method = Some ''POST'', headers = Some (createFormHeaders i),
                  body = Some (FormDataBody
                    [(''title'', FormText (title d1)), (''analyst'', FormText (analyst d1)),
                     (''category'', FormText (category d1)), (''file'', FormFile (the_file d1))])\<rparr>)]
       \<and> received s (Joined p) = received s (Issued p)
       \<and> (makeRequest st' t3 url
              \<lparr>http_method = m, headers = h, body = Some (FormDataBody fd1)\<rparr> cacheKey = (Issued q, st2)
            \<and> undisturbed
                (requestKey url \<lparr>http_method = m, headers = h, body = Some (FormDataBody fd1)\<rparr>)
                st2 es'
            \<and> \<not> (cachedGet cacheKey2
                     \<lparr>http_method = m, headers = h, body = Some (FormDataBody fd2)\<rparr>
                   \<and> truthy (getCachedData (run st2 es') t4 (the cacheKey2))) \<longrightarrow>
            makeRequest (run st2 es') t4 url
              \<lparr>http_method = m, headers = h, body = Some (FormDataBody fd2)\<rparr> cacheKey2
              = (Joined q, run st2 es')
          \<and> key_fetches
                (requestKey url \<lparr>http_method = m, headers = h, body = Some (FormDataBody fd1)\<rparr>)
                (run st2 es')
              = key_fetches
                  (requestKey url \<lparr>http_method = m, headers = h, body = Some (FormDataBody fd1)\<rparr>)
                  st'
                @ [(url, \<lparr>http_method = m, headers = h, body = Some (FormDataBody fd1)\<rparr>)])"
proof -
  have k: "\<And>fd1 fd2 url m h.
     requestKey url \<lparr>http_method = m, headers = h, body = Some (FormDataBody fd1)\<rparr>
     = requestKey url \<lparr>http_method = m, headers = h, body = Some (FormDataBody fd2)\<rparr>"
    by (simp add: requestKey_def stringify_options_def stringify_body_def)
  let ?url = "API_BASE_URL i @ ''/companies/'' @ companyId @ ''/reports''"
  let ?o1 = "\<lparr>http_method = Some ''POST'', headers = Some (createFormHeaders i),
              body = Some (FormDataBody
                [(''title'', FormText (title d1)), (''analyst'', FormText (analyst d1)),
                 (''category'', FormText (category d1)), (''file'', FormFile (the_file d1))])\<rparr>"
  let ?o2 = "\<lparr>http_method = Some ''POST'', headers = Some (createFormHeaders i),
              body = Some (FormDataBody
                [(''title'', FormText (title d2)), (''analyst'', FormText (analyst d2)),
                 (''category'', FormText (category d2)), (''file'', FormFile (the_file d2))])\<rparr>"
  let ?ofd = "\<lparr>http_method = Some ''POST'', headers = Some (createFormHeaders i),
               body = Some (FormDataBody fd)\<rparr>"
  let ?init = "clearCachePattern st (''reports_'' @ companyId)"
  let ?s = "run st1 es"
  let ?c = "clearCachePattern ?s (''reports_'' @ companyId)"
  have k1: "requestKey ?url ?ofd = requestKey ?url ?o1" by (rule k)
  have k2: "requestKey ?url ?o2 = requestKey ?url ?o1" by (rule k)
  have a: "makeRequest ?init t1 ?url ?o1 None = (Issued p, st1)"
    using assms(1) unfolding reportApi_upload_def .
  have u0: "undisturbed (requestKey ?url ?o1) st1 es"
    using assms(2) unfolding k1 .
  note u = in_flight_run [OF a u0]
  have pc: "pendingRequests ?c = pendingRequests ?s" by (simp add: clearCachePattern_def)
  have pend: "pendingRequests ?c (requestKey ?url ?o2) = Some p"
    unfolding k2 pc by (rule u(1))
  have n: "\<not> (cachedGet None ?o2 \<and> truthy (getCachedData ?c t2 (the None)))"
    by (simp add: cachedGet_def)
  have j: "reportApi_upload i ?s t2 companyId d2 = (Joined p, ?c)"
    unfolding reportApi_upload_def by (rule makeRequest_Joined [OF n pend])
  have c1: "requestKey url options = url @ ''_'' @ stringify_options options"
    by (simp add: requestKey_def)
  have c2: "stringify_body (FormDataBody fd1) = ''{}''"
    by (simp add: stringify_body_def)
  have c3: "requestKey url \<lparr>http_method = m, headers = h, body = Some (FormDataBody fd1)\<rparr>
           = requestKey url \<lparr>http_method = m, headers = h, body = Some (FormDataBody fd2)\<rparr>"
    by (rule k)
  have c5: "fetches (snd (reportApi_upload i ?s t2 companyId d2)) = fetches ?s"
    unfolding j by (simp add: clearCachePattern_def)
  have kc: "key_fetches (requestKey ?url ?o1) ?init = key_fetches (requestKey ?url ?o1) st"
    by (simp add: key_fetches_def clearCachePattern_def)
  have kc2: "key_fetches (requestKey ?url ?o1) ?c = key_fetches (requestKey ?url ?o1) ?s"
    by (simp add: key_fetches_def clearCachePattern_def)
  have c6: "key_fetches (requestKey ?url ?ofd) (snd (reportApi_upload i ?s t2 companyId d2))
           = key_fetches (requestKey ?url ?ofd) st @ [(?url, ?o1)]"
    unfolding j k1 snd_conv kc2 u(4) kc ..
  have c7: "received s (Joined p) = received s (Issued p)"
    by (simp add: received_def)
  let ?g1 = "\<lparr>http_method = m, headers = h, body = Some (FormDataBody fd1)\<rparr>"
  let ?g2 = "\<lparr>http_method = m, headers = h, body = Some (FormDataBody fd2)\<rparr>"
  have c8: "makeRequest st' t3 url ?g1 cacheKey = (Issued q, st2)
            \<and> undisturbed (requestKey url ?g1) st2 es'
            \<and> \<not> (cachedGet cacheKey2 ?g2 \<and> truthy (getCachedData (run st2 es') t4 (the cacheKey2))) \<longrightarrow>
            makeRequest (run st2 es') t4 url ?g2 cacheKey2 = (Joined q, run st2 es')
          \<and> key_fetches (requestKey url ?g1) (run st2 es')
              = key_fetches (requestKey url ?g1) st' @ [(url, ?g1)]"
  proof (rule impI)
    assume g: "makeRequest st' t3 url ?g1 cacheKey = (Issued q, st2)
            \<and> undisturbed (requestKey url ?g1) st2 es'
            \<and> \<not> (cachedGet cacheKey2 ?g2 \<and> truthy (getCachedData (run st2 es') t4 (the cacheKey2)))"
    note v = in_flight_run [OF g [THEN conjunct1] g [THEN conjunct2, THEN conjunct1]]
    have kg: "requestKey url ?g2 = requestKey url ?g1" by (rule k)
    have pg: "pendingRequests (run st2 es') (requestKey url ?g2) = Some q"
      unfolding kg by (rule v(1))
    have jg: "makeRequest (run st2 es') t4 url ?g2 cacheKey2 = (Joined q, run st2 es')"
      by (rule makeRequest_Joined [OF g [THEN conjunct2, THEN conjunct2] pg])
    show "makeRequest (run st2 es') t4 url ?g2 cacheKey2 = (Joined q, run st2 es')
          \<and> key_fetches (requestKey url ?g1) (run st2 es')
              = key_fetches (requestKey url ?g1) st' @ [(url, ?g1)]"
      by (intro conjI) (rule jg v(4))+
  qed
  show ?thesis
    by (intro conjI) (rule c1 c2 c3 j c5 c6 c7 c8)+
qed

lemma upload_key_differs:
  "requestKey (API_BASE_URL info0 @ ''/companies/'' @ ''7'' @ ''/reports'')
     \<lparr>http_method = Some ''POST'', headers = Some (createFormHeaders info0),
      body = Some (FormDataBody [])\<rparr> \<noteq> requestKey ''v'' plain_get"
  by (simp add: requestKey_def API_BASE_URL_def)

theorem multipart_uploads_share_key_witness:
  "reportApi_upload info0
       (run (snd (reportApi_upload info0 client0 0 ''7'' upload_A)) other_traffic) 4 ''7'' upload_B
     = (Joined 0,
        clearCachePattern (run (snd (reportApi_upload info0 client0 0 ''7'' upload_A)) other_traffic)
          (''reports_'' @ ''7''))
   \<and> fetches (snd (reportApi_upload info0
        (run (snd (reportApi_upload info0 client0 0 ''7'' upload_A)) other_traffic) 4 ''7'' upload_B))
     = fetches (run (snd (reportApi_upload info0 client0 0 ''7'' upload_A)) other_traffic)"
proof -
  note f = upload_first
  note f' = f [unfolded reportApi_upload_def]
  note i = issued_state [OF f']
  have e: "snd (reportApi_upload info0 client0 0 ''7'' upload_A)
             = snd (makeRequest (clearCachePattern client0 (''reports_'' @ ''7'')) 0
                 (API_BASE_URL info0 @ ''/companies/'' @ ''7'' @ ''/reports'')
                 \<lparr>http_method = Some ''POST'', headers = Some (createFormHeaders info0),
                  body = Some (FormDataBody
                    [(''title'', FormText (title upload_A)), (''analyst'', FormText (analyst upload_A)),
                     (''category'', FormText (category upload_A)),
                     (''file'', FormFile (the_file upload_A))])\<rparr> None)"
    by (simp add: reportApi_upload_def)
  have a: "pendingRequests (snd (reportApi_upload info0 client0 0 ''7'' upload_A))
             (requestKey ''v'' plain_get) = None"
    unfolding e using makeRequest_Issued(2) [OF f'] upload_key_differs
    by (simp add: client0_def clearCachePattern_def requestKey_def API_BASE_URL_def)
  have b: "length (promises (snd (reportApi_upload info0 client0 0 ''7'' upload_A))) = 1"
    unfolding e using i(4) by simp
  have h: "undisturbed
             (requestKey (API_BASE_URL info0 @ ''/companies/'' @ ''7'' @ ''/reports'')
                \<lparr>http_method = Some ''POST'', headers = Some (createFormHeaders info0),
                 body = Some (FormDataBody [])\<rparr>)
             (snd (reportApi_upload info0 client0 0 ''7'' upload_A)) other_traffic"
    by (rule other_traffic_undisturbed [OF a b upload_key_differs])
  note T = multipart_uploads_share_key [OF f h]
  note c4 = T [THEN conjunct2, THEN conjunct2, THEN conjunct2, THEN conjunct1]
  note c5 = T [THEN conjunct2, THEN conjunct2, THEN conjunct2, THEN conjunct2, THEN conjunct1]
  show ?thesis by (intro conjI) (rule c4 c5)+
qed

text \<open>
  Claim C10 as stated fails in the window in which a body is read. The response of the
  first upload has arrived and its handler has deleted the entry of the key, the first
  caller has received nothing yet, and the second upload sends a request of its own. And
  when that response is an error, the first handler ends by deleting the entry again,
  which the second upload holds by then: with the second upload still in flight, a third
  one is sent too.
\<close>

theorem second_upload_sent_while_body_read:
  "received (fetchSettles (snd (reportApi_upload info0 client0 0 ''7'' upload_A)) 0
       (Responds done_reply)) (Issued 0) = None
   \<and> fst (reportApi_upload info0
        (fetchSettles (snd (reportApi_upload info0 client0 0 ''7'' upload_A)) 0
           (Responds done_reply)) 1 ''7'' upload_B) = Issued 1
   \<and> length (fetches (snd (reportApi_upload info0
        (fetchSettles (snd (reportApi_upload info0 client0 0 ''7'' upload_A)) 0
           (Responds done_reply)) 1 ''7'' upload_B))) = 2
   \<and> received (bodyArrives (snd (reportApi_upload info0
        (fetchSettles (snd (reportApi_upload info0 client0 0 ''7'' upload_A)) 0
           (Responds (failure ''Failed to upload report'' 500))) 1 ''7'' upload_B)) 2 0)
        (Issued 1) = None
   \<and> fst (reportApi_upload info0
        (bodyArrives (snd (reportApi_upload info0
          (fetchSettles (snd (reportApi_upload info0 client0 0 ''7'' upload_A)) 0
             (Responds (failure ''Failed to upload report'' 500))) 1 ''7'' upload_B)) 2 0)
        3 ''7'' upload_A) = Issued 2"
  by (simp add: reportApi_upload_def makeRequest_def fetchSettles_def bodyArrives_def
        readResponse_def failure_def c_json_def ok_def clearCachePattern_def
        client0_def cachedGet_def received_def Let_def)

section \<open>Reordering and listing\<close>






lemma map_of_kv_set: "map_of (kv_set st key v) key = Some v"
  by (induction st) auto





























end
